theory Spec2Isabelle
  imports Complex_Main
begin

section \<open>Values exchanged with the host platform\<close>

text \<open>
  A thrown value. The orchestrator only ever inspects the \<open>name\<close> of what it catches
  (\<open>isAbortError\<close>), so an error is its name and its message.
\<close>

datatype js_error = JsError (err_name: string) (err_message: string)

text \<open>\<open>new DOMException('Aborted', 'AbortError')\<close>, as \<open>sleep\<close> rejects with.\<close>

definition AbortedDOMException :: js_error where
  "AbortedDOMException = JsError ''AbortError'' ''Aborted''"

text \<open>
  The reason a controller gets from \<open>controller.abort()\<close> called with no argument: the
  platform's own \<open>AbortError\<close> exception.
\<close>

definition defaultAbortReason :: js_error where
  "defaultAbortReason = JsError ''AbortError'' ''This operation was aborted''"

definition RequestFailed :: js_error where
  "RequestFailed = JsError ''Error'' ''Request failed''"

definition NoFetchImplementation :: js_error where
  "NoFetchImplementation =
     JsError ''Error'' ''No fetch implementation available in this environment.''"

text \<open>
  A JavaScript number: a double is a real number, an infinity or \<open>NaN\<close>. The two zeros
  are not told apart.
\<close>

datatype js_number = Finite real | PlusInfinity | MinusInfinity | NaN

text \<open>
  A \<open>Response\<close>: its status, its \<open>retry-after\<close> header (\<open>headers.get\<close> gives
  \<open>null\<close> when the header is absent) and the text of its body. \<open>ok\<close> is the platform's
  derived flag: the status lies in 200..299.
\<close>

record response =
  status :: int
  retry_after :: "string option"
  body :: string

definition ok :: "response \<Rightarrow> bool" where
  "ok res = (200 \<le> status res \<and> status res \<le> 299)"

text \<open>
  A retry policy. Its numbers, like the timeouts below, are finite doubles, written as
  the real numbers they are.
\<close>

record RetryOptions =
  retries :: int
  statusCodes :: "int list"
  methods :: "string list"
  factor :: real
  minDelay :: real
  maxDelay :: real
  jitter :: real
  respectRetryAfterHeader :: bool

text \<open>\<open>Partial<RetryOptions>\<close>: every field may be left out.\<close>

record PartialRetryOptions =
  opt_retries :: "int option"
  opt_statusCodes :: "int list option"
  opt_methods :: "string list option"
  opt_factor :: "real option"
  opt_minDelay :: "real option"
  opt_maxDelay :: "real option"
  opt_jitter :: "real option"
  opt_respectRetryAfterHeader :: "bool option"

text \<open>The \<open>retry\<close> option: \<open>boolean | number | Partial<RetryOptions>\<close>.\<close>

datatype retry_setting =
  RetryBool bool | RetryCount int | RetryObject PartialRetryOptions

text \<open>
  An \<open>AbortSignal\<close> handed in by the caller: the time at which the caller aborts it
  (\<open>None\<close>: never) and the reason it then carries. The signal is in the aborted state
  from that time on; its \<open>abort\<close> event is dispatched once, at that time, to the
  listeners attached by then.
\<close>

record abort_signal =
  abort_at :: "real option"
  abort_reason :: js_error

section \<open>The client's configuration and environment\<close>

text \<open>
  What \<open>createFetchClient\<close> closes over and what the platform supplies. All times are
  milliseconds on one clock.
  \<^item> \<open>beforeRequest\<close>, \<open>afterResponse\<close>: the optional hooks; the hook's run in attempt
    \<open>k\<close> takes some time and returns or throws.
  \<^item> \<open>fetchFn\<close>: \<open>fetchImplementation ?? fetch\<close>, absent when neither exists. Its call in
    attempt \<open>k\<close> takes some time and yields a response or throws, unless it is cancelled.
  \<^item> \<open>fetchObservesSignal\<close>: whether the transport honours \<open>init.signal\<close> as the
    platform's \<open>fetch\<close> does (rejecting with the signal's reason as soon as the signal is
    aborted); a \<open>fetchImplementation\<close> is free to ignore the signal.
  \<^item> \<open>random\<close>: the value \<open>Math.random()\<close> returns in attempt \<open>k\<close>.
  \<^item> \<open>roundResult\<close>: the double that stands for the exact result of an arithmetic
    operation on two finite doubles: the result rounded, or an infinity when it is out of
    range.
  \<^item> \<open>Math_pow\<close>: \<open>Math.pow\<close> of a finite base and an integer exponent.
  \<^item> \<open>toNumber\<close>: \<open>Number(s)\<close>; \<open>dateParse\<close>: \<open>new Date(s).getTime()\<close>, a time value
    or \<open>None\<close> for \<open>NaN\<close>.
  \<^item> \<open>toUpperCase\<close>: \<open>String.prototype.toUpperCase\<close>.
  \<^item> \<open>timerDelay\<close>: the time after which the platform runs the callback of
    \<open>setTimeout(f, ms)\<close>; it need not be \<open>ms\<close> (Node waits 1 ms when \<open>ms\<close> is below 1,
    above \<open>2^31 - 1\<close> or not a number).
  \<^item> \<open>defaultTimeout\<close>, \<open>defaultRetry\<close>: the \<open>timeout\<close> and \<open>retry\<close> of the config.
\<close>

record client_env =
  beforeRequest :: "(int \<Rightarrow> real \<times> js_error option) option"
  afterResponse :: "(int \<Rightarrow> real \<times> js_error option) option"
  fetchFn :: "(int \<Rightarrow> real \<times> (js_error + response)) option"
  fetchObservesSignal :: bool
  random :: "int \<Rightarrow> real"
  roundResult :: "real \<Rightarrow> js_number"
  Math_pow :: "real \<Rightarrow> int \<Rightarrow> js_number"
  toNumber :: "string \<Rightarrow> js_number"
  dateParse :: "string \<Rightarrow> real option"
  toUpperCase :: "string \<Rightarrow> string"
  timerDelay :: "js_number \<Rightarrow> real"
  defaultTimeout :: "real option"
  defaultRetry :: "retry_setting option"

section \<open>Arithmetic on doubles\<close>

text \<open>
  The operations the retry helpers use, with the special values as IEEE 754 treats
  them; a finite result is what the platform rounds the exact one to.
\<close>

fun jsNegative :: "js_number \<Rightarrow> bool" where
  "jsNegative (Finite x) = (x < 0)"
| "jsNegative MinusInfinity = True"
| "jsNegative a = False"

definition jsMul :: "client_env \<Rightarrow> js_number \<Rightarrow> js_number \<Rightarrow> js_number" where
  "jsMul env a b =
     (case (a, b) of
        (Finite x, Finite y) \<Rightarrow> roundResult env (x * y)
      | _ \<Rightarrow>
          if a = NaN \<or> b = NaN \<or> a = Finite 0 \<or> b = Finite 0 then NaN
          else if jsNegative a = jsNegative b then PlusInfinity
          else MinusInfinity)"

definition jsAdd :: "client_env \<Rightarrow> js_number \<Rightarrow> js_number \<Rightarrow> js_number" where
  "jsAdd env a b =
     (case (a, b) of
        (Finite x, Finite y) \<Rightarrow> roundResult env (x + y)
      | _ \<Rightarrow>
          if a = NaN \<or> b = NaN then NaN
          else if (a = PlusInfinity \<and> b = MinusInfinity) \<or> (a = MinusInfinity \<and> b = PlusInfinity)
          then NaN
          else if a = PlusInfinity \<or> b = PlusInfinity then PlusInfinity
          else MinusInfinity)"

fun jsNeg :: "js_number \<Rightarrow> js_number" where
  "jsNeg (Finite x) = Finite (- x)"
| "jsNeg PlusInfinity = MinusInfinity"
| "jsNeg MinusInfinity = PlusInfinity"
| "jsNeg NaN = NaN"

definition jsSub :: "client_env \<Rightarrow> js_number \<Rightarrow> js_number \<Rightarrow> js_number" where
  "jsSub env a b = jsAdd env a (jsNeg b)"

text \<open>\<open>Math.min\<close>, \<open>Math.max\<close> and \<open>Math.floor\<close>.\<close>

definition jsMin :: "js_number \<Rightarrow> js_number \<Rightarrow> js_number" where
  "jsMin a b =
     (if a = NaN \<or> b = NaN then NaN
      else if a = MinusInfinity \<or> b = MinusInfinity then MinusInfinity
      else
        (case (a, b) of
           (Finite x, Finite y) \<Rightarrow> Finite (min x y)
         | (PlusInfinity, _) \<Rightarrow> b
         | _ \<Rightarrow> a))"

definition jsMax :: "js_number \<Rightarrow> js_number \<Rightarrow> js_number" where
  "jsMax a b =
     (if a = NaN \<or> b = NaN then NaN
      else if a = PlusInfinity \<or> b = PlusInfinity then PlusInfinity
      else
        (case (a, b) of
           (Finite x, Finite y) \<Rightarrow> Finite (max x y)
         | (MinusInfinity, _) \<Rightarrow> b
         | _ \<Rightarrow> a))"

fun jsFloor :: "js_number \<Rightarrow> js_number" where
  "jsFloor (Finite x) = Finite (of_int \<lfloor>x\<rfloor>)"
| "jsFloor a = a"

text \<open>
  What the theorems below ask of the platform's rounding where they need it: a value is
  computed exactly when it is its own rounding, and rounding keeps the order.
\<close>

definition exactAt :: "client_env \<Rightarrow> real \<Rightarrow> bool" where
  "exactAt env v = (roundResult env v = Finite v)"

fun jsLessEq :: "js_number \<Rightarrow> js_number \<Rightarrow> bool" where
  "jsLessEq (Finite x) (Finite y) = (x \<le> y)"
| "jsLessEq NaN b = False"
| "jsLessEq a NaN = False"
| "jsLessEq MinusInfinity b = True"
| "jsLessEq a PlusInfinity = True"
| "jsLessEq a b = False"

definition monotoneRounding :: "client_env \<Rightarrow> bool" where
  "monotoneRounding env = (\<forall>x y. x \<le> y \<longrightarrow> jsLessEq (roundResult env x) (roundResult env y))"

section \<open>Retry helpers\<close>

definition DEFAULT_RETRY :: RetryOptions where
  "DEFAULT_RETRY =
     \<lparr>retries = 2, statusCodes = [408, 425, 429, 500, 502, 503, 504],
      methods = [''GET'', ''HEAD''], factor = 2, minDelay = 300, maxDelay = 2000,
      jitter = 1 / 4, respectRetryAfterHeader = True\<rparr>"

text \<open>\<open>m ? m.toUpperCase() : 'GET'\<close>: an undefined or empty method is \<open>GET\<close>.\<close>

definition normalizeMethod :: "client_env \<Rightarrow> string option \<Rightarrow> string" where
  "normalizeMethod env m =
     (case m of None \<Rightarrow> ''GET'' | Some x \<Rightarrow> if x = [] then ''GET'' else toUpperCase env x)"

text \<open>
  Membership in a list of method names under case-insensitive comparison: two names are
  the same when their upper-case forms are.
\<close>

definition memberIgnoringCase :: "client_env \<Rightarrow> string \<Rightarrow> string list \<Rightarrow> bool" where
  "memberIgnoringCase env m ms = (toUpperCase env m \<in> set (map (toUpperCase env) ms))"

text \<open>
  \<open>typeof reqRetry === 'undefined' ? defaultRetry : reqRetry\<close>, and JavaScript's
  truthiness of the result: \<open>false\<close> and \<open>0\<close> are falsy, an object is truthy.
\<close>

definition retrySource :: "retry_setting option \<Rightarrow> retry_setting option \<Rightarrow> retry_setting option" where
  "retrySource dflt reqRetry = (case reqRetry of None \<Rightarrow> dflt | Some r \<Rightarrow> Some r)"

fun truthy :: "retry_setting \<Rightarrow> bool" where
  "truthy (RetryBool b) = b"
| "truthy (RetryCount n) = (n \<noteq> 0)"
| "truthy (RetryObject p) = True"

text \<open>\<open>{ ...base, ...source }\<close>: the fields the source gives replace the base's.\<close>

definition spread :: "RetryOptions \<Rightarrow> PartialRetryOptions \<Rightarrow> RetryOptions" where
  "spread base src =
     \<lparr>retries = (case opt_retries src of Some v \<Rightarrow> v | None \<Rightarrow> retries base),
      statusCodes = (case opt_statusCodes src of Some v \<Rightarrow> v | None \<Rightarrow> statusCodes base),
      methods = (case opt_methods src of Some v \<Rightarrow> v | None \<Rightarrow> methods base),
      factor = (case opt_factor src of Some v \<Rightarrow> v | None \<Rightarrow> factor base),
      minDelay = (case opt_minDelay src of Some v \<Rightarrow> v | None \<Rightarrow> minDelay base),
      maxDelay = (case opt_maxDelay src of Some v \<Rightarrow> v | None \<Rightarrow> maxDelay base),
      jitter = (case opt_jitter src of Some v \<Rightarrow> v | None \<Rightarrow> jitter base),
      respectRetryAfterHeader =
        (case opt_respectRetryAfterHeader src of Some v \<Rightarrow> v
         | None \<Rightarrow> respectRetryAfterHeader base)\<rparr>"

text \<open>
  The policy \<open>resolveRetry\<close> builds in \<open>base\<close> from a truthy source, before it looks at
  the method.
\<close>

fun retryBase :: "retry_setting \<Rightarrow> RetryOptions" where
  "retryBase (RetryCount n) = DEFAULT_RETRY\<lparr>retries := n\<rparr>"
| "retryBase (RetryBool b) = DEFAULT_RETRY"
| "retryBase (RetryObject p) = spread DEFAULT_RETRY p"

definition resolveRetry ::
  "client_env \<Rightarrow> string option \<Rightarrow> retry_setting option \<Rightarrow> RetryOptions option" where
  "resolveRetry env method reqRetry =
     (case retrySource (defaultRetry env) reqRetry of
        None \<Rightarrow> None
      | Some source \<Rightarrow>
          if \<not> truthy source then None
          else
            (let base = retryBase source; finalMethod = normalizeMethod env method
             in if methods base \<noteq> [] \<and> finalMethod \<notin> set (methods base) then None
                else Some base))"

text \<open>
  \<open>parseRetryAfter\<close>, at clock time \<open>t\<close> (\<open>Date.now()\<close>). \<open>!ra\<close> holds for an absent
  header and for an empty one. \<open>None\<close> is \<open>undefined\<close>.
\<close>

definition parseRetryAfter :: "client_env \<Rightarrow> real \<Rightarrow> response \<Rightarrow> js_number option" where
  "parseRetryAfter env t res =
     (case retry_after res of
        None \<Rightarrow> None
      | Some ra \<Rightarrow>
          if ra = [] then None
          else
            (let secs = toNumber env ra
             in if secs \<noteq> NaN then Some (jsMax (Finite 0) (jsMul env secs (Finite 1000)))
                else
                  (case dateParse env ra of
                     Some date \<Rightarrow> Some (jsMax (Finite 0) (jsSub env (Finite date) (Finite t)))
                   | None \<Rightarrow> None)))"

text \<open>
  \<open>backoffDelay\<close>; \<open>rnd\<close> is the value of \<open>Math.random()\<close>. The attempt is the loop's
  counter, an integer, so \<open>Math.max(0, attempt - 1)\<close> is exact. \<open>!retry.jitter\<close> holds
  when the jitter is \<open>0\<close>. The numbers of a policy are finite.
\<close>

definition backoffDelay :: "client_env \<Rightarrow> real \<Rightarrow> int \<Rightarrow> RetryOptions \<Rightarrow> js_number" where
  "backoffDelay env rnd attempt retry =
     (let raw = jsMin (Finite (maxDelay retry))
                  (jsMul env (Finite (minDelay retry))
                     (Math_pow env (factor retry) (max 0 (attempt - 1))))
      in if jitter retry = 0 then raw
         else
           (let jit = jsMul env raw (Finite (jitter retry));
                mn = jsSub env raw jit;
                mx = jsAdd env raw jit
            in jsFloor (jsAdd env mn (jsMul env (Finite rnd) (jsSub env mx mn)))))"

text \<open>
  The intermediate results of the jittered delay around \<open>raw\<close> are computed exactly:
  the jitter's width, both ends of the range and the range's length; and so is \<open>0\<close>.
\<close>

definition jitterExact :: "client_env \<Rightarrow> real \<Rightarrow> real \<Rightarrow> bool" where
  "jitterExact env raw j =
     (exactAt env 0 \<and> exactAt env (raw * j) \<and> exactAt env (raw - raw * j)
      \<and> exactAt env (raw + raw * j) \<and> exactAt env ((raw + raw * j) - (raw - raw * j)))"

text \<open>
  The delay as the specification writes it, over the real numbers:
  \<open>raw = min(maxDelay, minDelay \<times> backoffFactor^(attempt\<minus>1))\<close>.
\<close>

definition specRawDelay :: "nat \<Rightarrow> RetryOptions \<Rightarrow> real" where
  "specRawDelay k retry = min (maxDelay retry) (minDelay retry * factor retry ^ (k - 1))"

definition isAbortError :: "js_error \<Rightarrow> bool" where
  "isAbortError err = (err_name err = ''AbortError'')"

section \<open>Response parsing\<close>

datatype 'a parsed =
  Undefined | JsonValue 'a | TextValue string | BlobValue string | ArrayBufferValue string

datatype 'a ResponseParser =
  ParseJson | ParseText | ParseBlob | ParseArrayBuffer
  | ParseWith "response \<Rightarrow> js_error + 'a parsed"

text \<open>
  \<open>String.prototype.trim\<close> on strings of characters below 256: tab, line feed, vertical
  tab, form feed, carriage return, space and no-break space are stripped from both ends.
\<close>

definition isWhiteSpace :: "char \<Rightarrow> bool" where
  "isWhiteSpace c = ((of_char c :: nat) \<in> {9, 10, 11, 12, 13, 32, 160})"

definition trim :: "string \<Rightarrow> string" where
  "trim s = rev (dropWhile isWhiteSpace (rev (dropWhile isWhiteSpace s)))"

text \<open>
  \<open>parseResponse\<close>; \<open>JSON_parse\<close> is the platform's \<open>JSON.parse\<close>, which returns a
  value or throws.
\<close>

definition parseResponse ::
  "(string \<Rightarrow> js_error + 'a) \<Rightarrow> response \<Rightarrow> 'a ResponseParser option \<Rightarrow> js_error + 'a parsed" where
  "parseResponse JSON_parse res parser =
     (let noContent = (status res = 204 \<or> status res = 205);
          asJson =
            (if noContent then Inr Undefined
             else
               (let raw = body res
                in if raw = [] \<or> length (trim raw) = 0 then Inr Undefined
                   else (case JSON_parse raw of Inl e \<Rightarrow> Inl e | Inr v \<Rightarrow> Inr (JsonValue v))))
      in case parser of
           None \<Rightarrow> asJson
         | Some ParseJson \<Rightarrow> asJson
         | Some ParseText \<Rightarrow> Inr (TextValue (body res))
         | Some ParseBlob \<Rightarrow> Inr (BlobValue (body res))
         | Some ParseArrayBuffer \<Rightarrow> Inr (ArrayBufferValue (body res))
         | Some (ParseWith f) \<Rightarrow> f res)"

section \<open>The cancellation handle and the clock\<close>

text \<open>
  What is being awaited when a cancellation source fires, and the observable events of
  one logical request, most recent first in the trace: the timer's start (with the time
  at which it expires), the start of an attempt (with the time), a call of the
  transport (with the time), a call of \<open>sleep\<close> (with the delay asked for and the
  time), the composed signal becoming aborted (with its reason, what was awaited and in
  which attempt), and a call of \<open>cleanup\<close>.
\<close>

datatype awaited = AwaitHook | AwaitTransport | AwaitSleep

datatype event =
  TimerStart real
  | AttemptStart int real
  | TransportCall int real
  | SleepCall int js_number real
  | Fired js_error awaited int
  | Cleanup

text \<open>
  The state of one logical request: the clock, the caller's signal and whether
  \<open>composeSignal\<close>'s \<open>onAbort\<close> listener is attached to it, the pending timeout timer
  (the time at which it expires), and the composed controller's signal (\<open>None\<close>: not
  aborted, otherwise its reason). When \<open>composeSignal\<close> returns no signal at all, the
  state holds no timer and no listener, so nothing can ever fire: to \<open>sleep\<close> and to
  the transport an absent signal and one that never aborts are the same.
\<close>

record handle_state =
  now :: real
  baseSignal :: "abort_signal option"
  listener :: bool
  timer :: "real option"
  fired :: "js_error option"
  trace :: "event list"

definition idle :: "real \<Rightarrow> handle_state" where
  "idle t = \<lparr>now = t, baseSignal = None, listener = False, timer = None, fired = None, trace = []\<rparr>"

definition logEvent :: "event \<Rightarrow> handle_state \<Rightarrow> handle_state" where
  "logEvent e s = s\<lparr>trace := e # trace s\<rparr>"

text \<open>The pending timer, when it expires by time \<open>t\<close>.\<close>

definition timerDue :: "real \<Rightarrow> handle_state \<Rightarrow> real option" where
  "timerDue t s = (case timer s of None \<Rightarrow> None | Some d \<Rightarrow> if d \<le> t then Some d else None)"

text \<open>
  The caller's abort, when its event reaches the attached listener by time \<open>t\<close>: an
  event dispatched at or before the present is not delivered again.
\<close>

definition callerDue :: "real \<Rightarrow> handle_state \<Rightarrow> (real \<times> js_error) option" where
  "callerDue t s =
     (if listener s then
        (case baseSignal s of
           None \<Rightarrow> None
         | Some c \<Rightarrow>
             (case abort_at c of
                None \<Rightarrow> None
              | Some a \<Rightarrow> if now s < a \<and> a \<le> t then Some (a, abort_reason c) else None))
      else None)"

text \<open>
  The reason of the first \<open>controller.abort\<close> call made by time \<open>t\<close>: the timer's
  callback aborts with no reason, \<open>onAbort\<close> with the caller's reason.
\<close>

definition strikes :: "real \<Rightarrow> handle_state \<Rightarrow> js_error option" where
  "strikes t s =
     (case timerDue t s of
        None \<Rightarrow> (case callerDue t s of None \<Rightarrow> None | Some (a, r) \<Rightarrow> Some r)
      | Some d \<Rightarrow>
          (case callerDue t s of
             None \<Rightarrow> Some defaultAbortReason
           | Some (a, r) \<Rightarrow> if d \<le> a then Some defaultAbortReason else Some r))"

text \<open>
  The clock moves to \<open>t\<close> and the callbacks due by then run: a due timer is consumed, and
  the controller, when it is not aborted yet, takes the first reason. \<open>w\<close> and \<open>k\<close> say
  what the orchestrator awaits meanwhile, in which attempt.
\<close>

definition advance :: "awaited \<Rightarrow> int \<Rightarrow> real \<Rightarrow> handle_state \<Rightarrow> handle_state" where
  "advance w k t s =
     s\<lparr>now := max (now s) t,
       timer := (case timerDue t s of None \<Rightarrow> timer s | Some d \<Rightarrow> None),
       fired := (case fired s of Some r \<Rightarrow> Some r | None \<Rightarrow> strikes t s),
       trace :=
         (case fired s of
            Some r \<Rightarrow> trace s
          | None \<Rightarrow> (case strikes t s of None \<Rightarrow> trace s | Some r \<Rightarrow> Fired r w k # trace s))\<rparr>"

text \<open>The earliest time after the present at which a cancellation source fires.\<close>

definition nextDue :: "handle_state \<Rightarrow> real option" where
  "nextDue s =
     (let c =
        (if listener s then
           (case baseSignal s of
              None \<Rightarrow> None
            | Some b \<Rightarrow>
                (case abort_at b of None \<Rightarrow> None | Some a \<Rightarrow> if now s < a then Some a else None))
         else None)
      in case timer s of
           None \<Rightarrow> c
         | Some d \<Rightarrow> (case c of None \<Rightarrow> Some d | Some a \<Rightarrow> Some (min d a)))"

text \<open>Time passing while code that ignores the signal runs for \<open>d\<close> milliseconds.\<close>

definition elapse :: "awaited \<Rightarrow> int \<Rightarrow> real \<Rightarrow> handle_state \<Rightarrow> handle_state" where
  "elapse w k d s = advance w k (now s + max 0 d) s"

text \<open>
  A wait of \<open>d\<close> milliseconds that ends early when the signal fires: the clock stops at
  the first cancellation source due within the wait. A source due at the very end of the
  wait counts as within it: the timeout's timer was set before the wait's.
\<close>

definition await :: "awaited \<Rightarrow> int \<Rightarrow> real \<Rightarrow> handle_state \<Rightarrow> handle_state" where
  "await w k d s =
     (let tend = now s + max 0 d
      in advance w k (case nextDue s of None \<Rightarrow> tend | Some f \<Rightarrow> min f tend) s)"

text \<open>
  \<open>sleep(ms, signal)\<close> in attempt \<open>k\<close>: rejected at once when the signal is aborted
  already, rejected when it fires before the timer, resolved otherwise. \<open>Some e\<close> is the
  rejection. The timer runs for as long as the platform makes \<open>setTimeout(resolve, ms)\<close>
  wait.
\<close>

definition sleep ::
  "client_env \<Rightarrow> int \<Rightarrow> js_number \<Rightarrow> handle_state \<Rightarrow> js_error option \<times> handle_state" where
  "sleep env k ms s =
     (let s0 = logEvent (SleepCall k ms (now s)) s
      in if fired s0 \<noteq> None then (Some AbortedDOMException, s0)
         else
           (let s1 = await AwaitSleep k (timerDelay env ms) s0
            in if fired s1 \<noteq> None then (Some AbortedDOMException, s1) else (None, s1)))"

text \<open>
  \<open>composeSignal\<close>: with neither a caller signal nor a truthy timeout it returns no
  signal and a no-op \<open>cleanup\<close>; otherwise it attaches \<open>onAbort\<close> to the caller's signal
  and, for a positive timeout, starts the timer. \<open>timeoutExpiry\<close> is the time at which
  the platform runs the callback of a timer set at time \<open>t\<close> for \<open>ms\<close> milliseconds.
\<close>

definition timeoutExpiry :: "client_env \<Rightarrow> real \<Rightarrow> real \<Rightarrow> real" where
  "timeoutExpiry env t ms = t + max 0 (timerDelay env (Finite ms))"

definition composeSignal ::
  "client_env \<Rightarrow> abort_signal option \<Rightarrow> real option \<Rightarrow> handle_state \<Rightarrow> handle_state" where
  "composeSignal env base timeoutMs s =
     (if base = None \<and> (timeoutMs = None \<or> timeoutMs = Some 0) then s
      else
        (let s1 = (case base of None \<Rightarrow> s | Some c \<Rightarrow> s\<lparr>baseSignal := Some c, listener := True\<rparr>)
         in case timeoutMs of
              None \<Rightarrow> s1
            | Some ms \<Rightarrow>
                if ms \<noteq> 0 \<and> ms > 0
                then logEvent (TimerStart (timeoutExpiry env (now s) ms))
                       (s1\<lparr>timer := Some (timeoutExpiry env (now s) ms)\<rparr>)
                else s1))"

text \<open>
  The \<open>cleanup\<close> closure: the listener is removed from the caller's signal and the timer
  is cleared. For the no-op closure there is neither, and the state stays as it is.
\<close>

definition cleanup :: "handle_state \<Rightarrow> handle_state" where
  "cleanup s = logEvent Cleanup (s\<lparr>listener := False, timer := None\<rparr>)"

section \<open>The retry orchestrator\<close>

text \<open>A hook's run in attempt \<open>k\<close>; an absent hook (\<open>?.\<close>) does nothing.\<close>

definition runHook ::
  "(int \<Rightarrow> real \<times> js_error option) option \<Rightarrow> int \<Rightarrow> handle_state \<Rightarrow> js_error option \<times> handle_state" where
  "runHook hook k s =
     (case hook of
        None \<Rightarrow> (None, s)
      | Some h \<Rightarrow> (snd (h k), elapse AwaitHook k (fst (h k)) s))"

text \<open>
  \<open>await fetchFn(url, baseInit)\<close> in attempt \<open>k\<close>. A transport that honours the signal
  rejects with the signal's reason, at once when the signal is aborted already and at
  the moment it fires otherwise; one that ignores it runs to its own outcome.
\<close>

definition callFetch ::
  "client_env \<Rightarrow> (int \<Rightarrow> real \<times> (js_error + response)) \<Rightarrow> int \<Rightarrow> handle_state
     \<Rightarrow> (js_error + response) \<times> handle_state" where
  "callFetch env f k s =
     (let s0 = logEvent (TransportCall k (now s)) s
      in if fetchObservesSignal env then
           (case fired s0 of
              Some r \<Rightarrow> (Inl r, s0)
            | None \<Rightarrow>
                (let s1 = await AwaitTransport k (fst (f k)) s0
                 in case fired s1 of Some r \<Rightarrow> (Inl r, s1) | None \<Rightarrow> (snd (f k), s1)))
         else (snd (f k), elapse AwaitTransport k (fst (f k)) s0))"

text \<open>How the \<open>try\<close> block of one attempt ends.\<close>

datatype try_result =
  Return response handle_state | Continue handle_state | Throw js_error handle_state

definition try_block ::
  "client_env \<Rightarrow> (int \<Rightarrow> real \<times> (js_error + response)) \<Rightarrow> RetryOptions option \<Rightarrow> int \<Rightarrow> int
     \<Rightarrow> handle_state \<Rightarrow> try_result" where
  "try_block env f retryPolicy totalAttempts attempt s =
     (case runHook (beforeRequest env) attempt s of
        (Some e, s1) \<Rightarrow> Throw e s1
      | (None, s1) \<Rightarrow>
          (case callFetch env f attempt s1 of
             (Inl e, s2) \<Rightarrow> Throw e s2
           | (Inr res, s2) \<Rightarrow>
               (case runHook (afterResponse env) attempt s2 of
                  (Some e, s3) \<Rightarrow> Throw e s3
                | (None, s3) \<Rightarrow>
                    (case retryPolicy of
                       None \<Rightarrow> Return res (cleanup s3)
                     | Some p \<Rightarrow>
                         if \<not> ok res \<and> status res \<in> set (statusCodes p) \<and> attempt < totalAttempts
                         then
                           (let retryAfter =
                                  (if respectRetryAfterHeader p
                                   then parseRetryAfter env (now s3) res else None);
                                delay =
                                  (case retryAfter of
                                     Some hint \<Rightarrow> hint
                                   | None \<Rightarrow> backoffDelay env (random env attempt) attempt p)
                            in case sleep env attempt delay s3 of
                                 (Some e, s4) \<Rightarrow> Throw e s4
                               | (None, s4) \<Rightarrow> Continue s4)
                         else Return res (cleanup s3)))))"

text \<open>
  A hook throws in attempt \<open>k\<close>: \<open>beforeRequest\<close> does, or it returns, the transport
  yields a response and \<open>afterResponse\<close> throws. The result is the thrown value and
  the state at that moment.
\<close>

definition hookThrows ::
  "client_env \<Rightarrow> (int \<Rightarrow> real \<times> (js_error + response)) \<Rightarrow> int \<Rightarrow> handle_state
     \<Rightarrow> (js_error \<times> handle_state) option" where
  "hookThrows env f k s =
     (case runHook (beforeRequest env) k s of
        (Some e, s1) \<Rightarrow> Some (e, s1)
      | (None, s1) \<Rightarrow>
          (case callFetch env f k s1 of
             (Inl e, s2) \<Rightarrow> None
           | (Inr res, s2) \<Rightarrow>
               (case runHook (afterResponse env) k s2 of
                  (Some e, s3) \<Rightarrow> Some (e, s3)
                | (None, s3) \<Rightarrow> None)))"

text \<open>
  How one iteration of the loop ends: the function returns or throws (\<open>Done\<close>), or the
  loop goes on with the value of \<open>lastError\<close> (\<open>Next\<close>). The \<open>sleep\<close> of the \<open>catch\<close>
  block is awaited inside that block, so its rejection leaves the function as it is.
\<close>

datatype iteration =
  Done "js_error + response" handle_state | Next "js_error option" handle_state

definition attempt_body ::
  "client_env \<Rightarrow> (int \<Rightarrow> real \<times> (js_error + response)) \<Rightarrow> RetryOptions option \<Rightarrow> int \<Rightarrow> int
     \<Rightarrow> js_error option \<Rightarrow> handle_state \<Rightarrow> iteration" where
  "attempt_body env f retryPolicy totalAttempts attempt lastError s =
     (case try_block env f retryPolicy totalAttempts attempt s of
        Return res s' \<Rightarrow> Done (Inr res) s'
      | Continue s' \<Rightarrow> Next lastError s'
      | Throw err s' \<Rightarrow>
          if isAbortError err then Done (Inl err) (cleanup s')
          else
            (case retryPolicy of
               None \<Rightarrow> Done (Inl err) (cleanup s')
             | Some p \<Rightarrow>
                 if attempt \<ge> totalAttempts then Done (Inl err) (cleanup s')
                 else
                   (case sleep env attempt (backoffDelay env (random env attempt) attempt p) s' of
                      (Some e, s'') \<Rightarrow> Done (Inl e) s''
                    | (None, s'') \<Rightarrow> Next (Some err) s'')))"

text \<open>
  The \<open>for\<close> loop from \<open>attempt\<close> on, and what follows it:
  \<open>cleanup(); throw lastError ?? new Error('Request failed')\<close>.
\<close>

function attempts ::
  "client_env \<Rightarrow> (int \<Rightarrow> real \<times> (js_error + response)) \<Rightarrow> RetryOptions option \<Rightarrow> int \<Rightarrow> int
     \<Rightarrow> js_error option \<Rightarrow> handle_state \<Rightarrow> (js_error + response) \<times> handle_state" where
  "attempts env f retryPolicy totalAttempts attempt lastError s =
     (if attempt \<le> totalAttempts then
        (case attempt_body env f retryPolicy totalAttempts attempt lastError
                (logEvent (AttemptStart attempt (now s)) s) of
           Done r s' \<Rightarrow> (r, s')
         | Next e s' \<Rightarrow> attempts env f retryPolicy totalAttempts (attempt + 1) e s')
      else
        (Inl (case lastError of Some e \<Rightarrow> e | None \<Rightarrow> RequestFailed), cleanup s))"
  by pat_completeness auto
termination
  by (relation "measure (\<lambda>(env, f, p, total, attempt, e, s). nat (total + 1 - attempt))") auto

text \<open>
  \<open>requestWithRetry\<close>, called at clock time \<open>t\<close> with the caller's \<open>init.signal\<close>. The
  timeout is \<open>effectiveTimeout ?? defaultTimeout\<close>.
\<close>

definition requestWithRetry ::
  "client_env \<Rightarrow> abort_signal option \<Rightarrow> real option \<Rightarrow> RetryOptions option \<Rightarrow> real
     \<Rightarrow> (js_error + response) \<times> handle_state" where
  "requestWithRetry env userSignal effectiveTimeout retryPolicy t =
     (case fetchFn env of
        None \<Rightarrow> (Inl NoFetchImplementation, idle t)
      | Some f \<Rightarrow>
          (let s = composeSignal env userSignal
                     (case effectiveTimeout of Some ms \<Rightarrow> Some ms | None \<Rightarrow> defaultTimeout env)
                     (idle t);
               totalAttempts = (case retryPolicy of Some p \<Rightarrow> retries p | None \<Rightarrow> 0) + 1
           in attempts env f retryPolicy totalAttempts 1 None s))"

text \<open>Observations on a trace, and the state in which a block or an iteration ends.\<close>

fun isTransportCall :: "event \<Rightarrow> bool" where
  "isTransportCall (TransportCall k t) = True"
| "isTransportCall e = False"

fun isAttemptStart :: "event \<Rightarrow> bool" where
  "isAttemptStart (AttemptStart k t) = True"
| "isAttemptStart e = False"

fun isTimerStart :: "event \<Rightarrow> bool" where
  "isTimerStart (TimerStart d) = True"
| "isTimerStart e = False"

fun isCleanup :: "event \<Rightarrow> bool" where
  "isCleanup Cleanup = True"
| "isCleanup e = False"

definition transportCalls :: "handle_state \<Rightarrow> nat" where
  "transportCalls s = length (filter isTransportCall (trace s))"

definition attemptsStarted :: "handle_state \<Rightarrow> nat" where
  "attemptsStarted s = length (filter isAttemptStart (trace s))"

definition timersStarted :: "handle_state \<Rightarrow> nat" where
  "timersStarted s = length (filter isTimerStart (trace s))"

definition cleanups :: "handle_state \<Rightarrow> nat" where
  "cleanups s = length (filter isCleanup (trace s))"

fun try_state :: "try_result \<Rightarrow> handle_state" where
  "try_state (Return res s) = s"
| "try_state (Continue s) = s"
| "try_state (Throw e s) = s"

fun iter_state :: "iteration \<Rightarrow> handle_state" where
  "iter_state (Done r s) = s"
| "iter_state (Next e s) = s"


text \<open>
  The timeout budget, for a timer that expires at time \<open>d\<close>. While the composed signal
  is not aborted the timer is pending and the clock has not passed \<open>d\<close>.
\<close>

definition withinBudget :: "real \<Rightarrow> handle_state \<Rightarrow> bool" where
  "withinBudget d s = (fired s = None \<longrightarrow> timer s = Some d \<and> now s \<le> d)"

text \<open>
  The state within attempt \<open>n\<close>, before its wait: every attempt so far started by \<open>d\<close>,
  the later ones before \<open>d\<close>; every wait so far would have ended before \<open>d\<close>; a
  transport call that would last until \<open>d\<close> is the current attempt's and the signal is
  aborted; and with a transport that honours the signal and no hooks, the clock has not
  passed \<open>d\<close>.
\<close>

definition duringAttempt ::
  "client_env \<Rightarrow> (int \<Rightarrow> real \<times> (js_error + response)) \<Rightarrow> real \<Rightarrow> int \<Rightarrow> handle_state \<Rightarrow> bool" where
  "duringAttempt env f d n x =
     (withinBudget d x
      \<and> (\<forall>m \<tau>. AttemptStart m \<tau> \<in> set (trace x) \<longrightarrow> m \<le> n \<and> \<tau> \<le> d \<and> (1 < m \<longrightarrow> \<tau> < d))
      \<and> (\<forall>k ms \<tau>. SleepCall k ms \<tau> \<in> set (trace x) \<longrightarrow> \<tau> + max 0 (timerDelay env ms) < d)
      \<and> (\<forall>k \<tau>. TransportCall k \<tau> \<in> set (trace x) \<and> d \<le> \<tau> + max 0 (fst (f k))
            \<longrightarrow> k = n \<and> fired x \<noteq> None)
      \<and> (fetchObservesSignal env \<and> beforeRequest env = None \<and> afterResponse env = None
            \<longrightarrow> now x \<le> d))"

text \<open>The state in which attempt \<open>n\<close> is about to start.\<close>

definition betweenAttempts ::
  "client_env \<Rightarrow> (int \<Rightarrow> real \<times> (js_error + response)) \<Rightarrow> real \<Rightarrow> int \<Rightarrow> handle_state \<Rightarrow> bool" where
  "betweenAttempts env f d n x =
     (fired x = None \<and> timer x = Some d \<and> now x \<le> d \<and> (1 < n \<longrightarrow> now x < d)
      \<and> (\<forall>m \<tau>. AttemptStart m \<tau> \<in> set (trace x) \<longrightarrow> m < n \<and> \<tau> \<le> d \<and> (1 < m \<longrightarrow> \<tau> < d))
      \<and> (\<forall>k ms \<tau>. SleepCall k ms \<tau> \<in> set (trace x) \<longrightarrow> \<tau> + max 0 (timerDelay env ms) < d)
      \<and> (\<forall>k \<tau>. TransportCall k \<tau> \<in> set (trace x) \<longrightarrow> \<tau> + max 0 (fst (f k)) < d))"
section \<open>Concrete inputs\<close>

text \<open>A policy with a jitter of one half around a delay of one millisecond.\<close>

definition jitterHalf :: RetryOptions where
  "jitterHalf =
     \<lparr>retries = 0, statusCodes = [], methods = [], factor = 1, minDelay = 1, maxDelay = 1,
      jitter = 1 / 2, respectRetryAfterHeader = False\<rparr>"

text \<open>A response with status 200 whose body is a space, a line feed and a tab.\<close>

definition blankBody :: response where
  "blankBody = \<lparr>status = 200, retry_after = None, body = [CHR '' '', CHR 0x0A, CHR 0x09]\<rparr>"

text \<open>A \<open>JSON.parse\<close> that throws on every input.\<close>

definition rejectAll :: "string \<Rightarrow> js_error + unit" where
  "rejectAll raw = Inl (JsError ''SyntaxError'' ''Unexpected end of JSON input'')"

text \<open>Responses, errors and environments for the scenarios below.\<close>

definition okResponse :: response where
  "okResponse = \<lparr>status = 200, retry_after = None, body = ''{}''\<rparr>"

definition unavailable :: response where
  "unavailable = \<lparr>status = 503, retry_after = None, body = []\<rparr>"

definition networkError :: js_error where
  "networkError = JsError ''TypeError'' ''fetch failed''"

definition hookError :: js_error where
  "hookError = JsError ''Error'' ''hook failed''"

text \<open>
  An example platform. Its arithmetic is exact on the multiples of \<open>2^-10\<close> up to
  \<open>2^43\<close> in magnitude, which are doubles, and so agrees with the doubles' on them; it
  rounds any other number to the nearest such multiple and overflows beyond \<open>2^1024\<close>.
\<close>

definition exampleRound :: "real \<Rightarrow> js_number" where
  "exampleRound x =
     (if 2 ^ 1024 \<le> x then PlusInfinity
      else if x \<le> - (2 ^ 1024) then MinusInfinity
      else Finite (of_int \<lfloor>x * 1024 + 1 / 2\<rfloor> / 1024))"

definition examplePow :: "real \<Rightarrow> int \<Rightarrow> js_number" where
  "examplePow b n = (if n < 0 then exampleRound (1 / b ^ nat (- n)) else exampleRound (b ^ nat n))"

text \<open>\<open>toUpperCase\<close> on the letters \<open>a\<close> to \<open>z\<close>, as the platform's is on ASCII strings.\<close>

definition upperChar :: "char \<Rightarrow> char" where
  "upperChar c =
     (if (97::nat) \<le> of_char c \<and> of_char c \<le> (122::nat)
      then char_of (of_char c - (32::nat)) else c)"

definition asciiUpperCase :: "string \<Rightarrow> string" where
  "asciiUpperCase s = map upperChar s"

text \<open>
  A timer as Node's: it runs for the delay asked when that is between 1 and \<open>2^31 - 1\<close>
  milliseconds, and for one millisecond otherwise.
\<close>

definition nodeTimerDelay :: "js_number \<Rightarrow> real" where
  "nodeTimerDelay d =
     (case d of Finite ms \<Rightarrow> if 1 \<le> ms \<and> ms \<le> 2147483647 then ms else 1 | _ \<Rightarrow> 1)"

text \<open>
  The platform's \<open>Number\<close> reads the strings \<open>0\<close> and \<open>7\<close> and its \<open>Date\<close> reads no
  string; the transport answers 200 after 10 ms and honours the signal.
\<close>

definition plainEnv :: client_env where
  "plainEnv =
     \<lparr>beforeRequest = None, afterResponse = None,
      fetchFn = Some (\<lambda>k. (10, Inr okResponse)),
      fetchObservesSignal = True, random = (\<lambda>k. 0),
      roundResult = exampleRound, Math_pow = examplePow,
      toNumber = (\<lambda>s. if s = ''0'' then Finite 0 else if s = ''7'' then Finite 7 else NaN),
      dateParse = (\<lambda>s. None), toUpperCase = asciiUpperCase, timerDelay = nodeTimerDelay,
      defaultTimeout = None, defaultRetry = None\<rparr>"

text \<open>The transport answers 503 every time.\<close>

definition always503 :: client_env where
  "always503 = plainEnv\<lparr>fetchFn := Some (\<lambda>k. (10, Inr unavailable))\<rparr>"

text \<open>The \<open>beforeRequest\<close> hook throws in the first attempt and returns afterwards.\<close>

definition hookFailsOnce :: client_env where
  "hookFailsOnce =
     plainEnv\<lparr>beforeRequest := Some (\<lambda>k. if k = 1 then (0, Some hookError) else (0, None))\<rparr>"

text \<open>The transport fails with a network error in the first attempt.\<close>

definition failsOnce :: client_env where
  "failsOnce =
     plainEnv\<lparr>fetchFn := Some (\<lambda>k. if k = 1 then (10, Inl networkError) else (10, Inr okResponse))\<rparr>"

text \<open>Policies: the defaults without jitter, with one retry and with none.\<close>

definition oneRetry :: RetryOptions where
  "oneRetry = DEFAULT_RETRY\<lparr>retries := 1, jitter := 0\<rparr>"

definition noRetries :: RetryOptions where
  "noRetries = DEFAULT_RETRY\<lparr>retries := 0, jitter := 0\<rparr>"

text \<open>The retry option \<open>{ methods: [] }\<close>.\<close>

definition emptyMethods :: retry_setting where
  "emptyMethods =
     RetryObject
       \<lparr>opt_retries = None, opt_statusCodes = None, opt_methods = Some [], opt_factor = None,
        opt_minDelay = None, opt_maxDelay = None, opt_jitter = None,
        opt_respectRetryAfterHeader = None\<rparr>"

text \<open>The retry option \<open>{ methods: ['GET'] }\<close>.\<close>

definition retryGetOnly :: retry_setting where
  "retryGetOnly =
     RetryObject
       \<lparr>opt_retries = None, opt_statusCodes = None, opt_methods = Some [''GET''], opt_factor = None,
        opt_minDelay = None, opt_maxDelay = None, opt_jitter = None,
        opt_respectRetryAfterHeader = None\<rparr>"

text \<open>
  A 503 response that asks for a retry after 7 seconds, and a transport that always
  answers with it.
\<close>

definition retryIn7 :: response where
  "retryIn7 = \<lparr>status = 503, retry_after = Some ''7'', body = []\<rparr>"

definition busyEnv :: client_env where
  "busyEnv = plainEnv\<lparr>fetchFn := Some (\<lambda>k. (10, Inr retryIn7))\<rparr>"

text \<open>The same server, and an \<open>afterResponse\<close> hook that throws on every response.\<close>

definition responseRejected :: client_env where
  "responseRejected = busyEnv\<lparr>afterResponse := Some (\<lambda>k. (0, Some hookError))\<rparr>"

text \<open>
  A platform whose \<open>Date\<close> reads one HTTP date, as 1445412480000 ms, and a 503 response
  carrying that date.
\<close>

definition datedEnv :: client_env where
  "datedEnv =
     plainEnv\<lparr>dateParse :=
       (\<lambda>s. if s = ''Wed, 21 Oct 2015 07:28:00 GMT'' then Some 1445412480000 else None)\<rparr>"

definition retryAtDate :: response where
  "retryAtDate = \<lparr>status = 503, retry_after = Some ''Wed, 21 Oct 2015 07:28:00 GMT'', body = []\<rparr>"

text \<open>
  Caller signals: one aborted at time 100 with the platform's reason, one aborted at
  time 0 with a reason of the caller's own.
\<close>

definition abortsAt100 :: abort_signal where
  "abortsAt100 = \<lparr>abort_at = Some 100, abort_reason = defaultAbortReason\<rparr>"

definition abortedAt0 :: abort_signal where
  "abortedAt0 = \<lparr>abort_at = Some 0, abort_reason = JsError ''Error'' ''cancelled by the user''\<rparr>"

text \<open>A transport that answers 200 after a full second and honours the signal.\<close>

definition slowEnv :: client_env where
  "slowEnv = plainEnv\<lparr>fetchFn := Some (\<lambda>k. (1000, Inr okResponse))\<rparr>"

text \<open>
  The same transport when it ignores \<open>init.signal\<close>, as a \<open>fetchImplementation\<close> may.
\<close>

definition deafEnv :: client_env where
  "deafEnv = slowEnv\<lparr>fetchObservesSignal := False\<rparr>"

text \<open>
  A server that answers 503 within a millisecond and asks for a retry after 0.25
  seconds, on a platform whose \<open>Number\<close> reads that header; and the default policy with
  three retries.
\<close>

definition retryIn250ms :: response where
  "retryIn250ms = \<lparr>status = 503, retry_after = Some ''0.25'', body = []\<rparr>"

definition hintingEnv :: client_env where
  "hintingEnv =
     plainEnv\<lparr>fetchFn := Some (\<lambda>k. (1, Inr retryIn250ms)),
              toNumber := (\<lambda>s. if s = ''0.25'' then Finite (1 / 4) else NaN)\<rparr>"

definition threeRetries :: RetryOptions where
  "threeRetries = DEFAULT_RETRY\<lparr>retries := 3\<rparr>"

section \<open>Arithmetic on finite doubles\<close>

lemma jsMul_Finite [simp]: "jsMul env (Finite x) (Finite y) = roundResult env (x * y)"
  by (simp add: jsMul_def)

lemma jsAdd_Finite [simp]: "jsAdd env (Finite x) (Finite y) = roundResult env (x + y)"
  by (simp add: jsAdd_def)

lemma jsSub_Finite [simp]: "jsSub env (Finite x) (Finite y) = roundResult env (x - y)"
  by (simp add: jsSub_def jsAdd_def)

lemma jsMin_Finite [simp]: "jsMin (Finite x) (Finite y) = Finite (min x y)"
  by (simp add: jsMin_def)

lemma jsMax_Finite [simp]: "jsMax (Finite x) (Finite y) = Finite (max x y)"
  by (simp add: jsMax_def)

lemma jsMul_zero_infinity: "jsMul env (Finite 0) PlusInfinity = NaN"
  by (simp add: jsMul_def)

lemma jsMin_NaN: "jsMin a NaN = NaN"
  by (simp add: jsMin_def)

text \<open>
  Between two values that are computed exactly, a monotone rounding yields a finite
  double between them.
\<close>

lemma rounding_between:
  assumes mono: "monotoneRounding env" and a: "exactAt env a" and b: "exactAt env b"
    and ax: "a \<le> x" and xb: "x \<le> b"
  obtains v where "roundResult env x = Finite v" "a \<le> v" "v \<le> b"
proof -
  have lo: "jsLessEq (Finite a) (roundResult env x)"
    using mono ax a unfolding monotoneRounding_def exactAt_def by metis
  have hi: "jsLessEq (roundResult env x) (Finite b)"
    using mono xb b unfolding monotoneRounding_def exactAt_def by metis
  show ?thesis
  proof (cases "roundResult env x")
    case (Finite v)
    then show ?thesis using lo hi that by simp
  next
    case PlusInfinity
    then show ?thesis using hi by simp
  next
    case MinusInfinity
    then show ?thesis using lo by simp
  next
    case NaN
    then show ?thesis using lo by simp
  qed
qed

text \<open>The example platform's rounding.\<close>

lemma exampleRound_exact:
  assumes "x * 1024 = of_int n" "- (2 ^ 1024) < x" "x < 2 ^ 1024"
  shows "exampleRound x = Finite x"
proof -
  have "\<lfloor>x * 1024 + 1 / 2\<rfloor> = n" unfolding assms(1) by linarith
  then have "of_int \<lfloor>x * 1024 + 1 / 2\<rfloor> / 1024 = x" using assms(1) by simp
  then show ?thesis using assms(2,3) by (simp add: exampleRound_def)
qed

lemma exampleRound_int [simp]:
  "- (2 ^ 1024) < (of_int n :: real) \<Longrightarrow> (of_int n :: real) < 2 ^ 1024
   \<Longrightarrow> exampleRound (of_int n) = Finite (of_int n)"
  by (rule exampleRound_exact [of _ "n * 1024"]) simp_all

lemma exampleRound_numeral [simp]:
  "(numeral w :: real) < 2 ^ 1024 \<Longrightarrow> exampleRound (numeral w) = Finite (numeral w)"
  using exampleRound_int [of "numeral w"] by simp

lemma exampleRound_0 [simp]: "exampleRound 0 = Finite 0"
  using exampleRound_int [of 0] by simp

lemma exampleRound_1 [simp]: "exampleRound 1 = Finite 1"
  using exampleRound_int [of 1] by simp

lemma exampleRound_mono: "x \<le> y \<Longrightarrow> jsLessEq (exampleRound x) (exampleRound y)"
proof -
  assume xy: "x \<le> y"
  then have "\<lfloor>x * 1024 + 1 / 2\<rfloor> \<le> \<lfloor>y * 1024 + 1 / 2\<rfloor>" by (intro floor_mono) simp
  then have "(of_int \<lfloor>x * 1024 + 1 / 2\<rfloor> :: real) / 1024 \<le> of_int \<lfloor>y * 1024 + 1 / 2\<rfloor> / 1024"
    by simp
  then show ?thesis using xy by (simp add: exampleRound_def)
qed

lemma monotoneRounding_plainEnv: "monotoneRounding plainEnv"
  by (simp add: monotoneRounding_def plainEnv_def exampleRound_mono)

section \<open>The backoff delay\<close>

lemma specRawDelay_nonneg:
  assumes "0 \<le> minDelay p" "minDelay p \<le> maxDelay p" "1 \<le> factor p"
  shows "0 \<le> specRawDelay k p"
proof -
  have "0 \<le> factor p ^ (k - 1)" using assms(3) by simp
  then have "0 \<le> minDelay p * factor p ^ (k - 1)" using assms(1) by simp
  moreover have "0 \<le> maxDelay p" using assms(1,2) by simp
  ultimately show ?thesis by (simp add: specRawDelay_def)
qed

lemma backoff_exponent: "1 \<le> k \<Longrightarrow> max 0 (int k - 1) = int (k - 1)"
  by (cases k) simp_all

text \<open>
  The raw delay is the specification's when the power and its product with \<open>minDelay\<close>
  are computed exactly.
\<close>

lemma raw_delay_exact:
  assumes "1 \<le> k" "Math_pow env (factor p) (int (k - 1)) = Finite (factor p ^ (k - 1))"
    "exactAt env (minDelay p * factor p ^ (k - 1))"
  shows "jsMin (Finite (maxDelay p))
           (jsMul env (Finite (minDelay p)) (Math_pow env (factor p) (max 0 (int k - 1))))
         = Finite (specRawDelay k p)"
  using assms by (simp add: backoff_exponent exactAt_def specRawDelay_def)

text \<open>
  Outside these conditions the delay need not be the specification's, nor a number:
  without jitter it is the rounded product, and with a \<open>minDelay\<close> of \<open>0\<close> and a power
  that overflows it is \<open>NaN\<close>.
\<close>

lemma backoffDelay_rounded:
  assumes "jitter p = 0" "Math_pow env (factor p) (max 0 (k - 1)) = Finite v"
  shows "backoffDelay env rnd k p = jsMin (Finite (maxDelay p)) (roundResult env (minDelay p * v))"
  using assms by (simp add: backoffDelay_def)

lemma backoffDelay_NaN:
  assumes "jitter p = 0" "minDelay p = 0" "Math_pow env (factor p) (max 0 (k - 1)) = PlusInfinity"
  shows "backoffDelay env rnd k p = NaN"
  using assms by (simp add: backoffDelay_def jsMul_zero_infinity jsMin_NaN)

text \<open>
  C7, as the claim states it, fails: with a raw delay of 1 ms and a jitter of one half
  the range is [0.5, 1.5], and for the draw 0 the code returns \<open>floor 0.5 = 0\<close>, which
  lies below the range. Every intermediate result is a double here.
\<close>

theorem backoffDelay_below_range:
  "minDelay jitterHalf \<le> maxDelay jitterHalf \<and> 1 \<le> factor jitterHalf \<and> 0 < jitter jitterHalf
   \<and> jitter jitterHalf \<le> 1
   \<and> backoffDelay plainEnv 0 1 jitterHalf = Finite 0
   \<and> 0 < specRawDelay 1 jitterHalf * (1 - jitter jitterHalf)"
proof -
  have h: "exampleRound (1 / 2) = Finite (1 / 2)" "exampleRound (3 / 2) = Finite (3 / 2)"
    by (rule exampleRound_exact [of _ 512], simp_all)
       (rule exampleRound_exact [of _ 1536], simp_all)
  have "backoffDelay plainEnv 0 1 jitterHalf = Finite 0"
    by (simp add: backoffDelay_def jitterHalf_def plainEnv_def examplePow_def h)
  then show ?thesis by (simp add: jitterHalf_def specRawDelay_def)
qed

text \<open>
  C7, amended: for every attempt \<open>k \<ge> 1\<close> and every policy with
  \<open>0 \<le> minDelay \<le> maxDelay\<close> and \<open>factor \<ge> 1\<close>, where the power and its product with
  \<open>minDelay\<close> are computed exactly: without jitter the delay is exactly
  \<open>raw = min(maxDelay, minDelay \<times> factor^(k\<minus>1))\<close>; with a jitter \<open>j\<close> in (0, 1], any draw
  in [0, 1), a rounding that keeps the order and exact intermediate results
  (\<open>raw \<times> j\<close>, both ends of the range and its length) the delay is a non-negative integer,
  at most \<open>raw \<times> (1+j)\<close> and, because of the floor, more than \<open>raw \<times> (1\<minus>j) \<minus> 1\<close>.
\<close>

theorem backoffDelay_bounds:
  assumes k: "1 \<le> k" and mn: "0 \<le> minDelay p" and mm: "minDelay p \<le> maxDelay p"
    and fa: "1 \<le> factor p" and r0: "0 \<le> rnd" and r1: "rnd < 1"
    and pw: "Math_pow env (factor p) (int (k - 1)) = Finite (factor p ^ (k - 1))"
    and pr: "exactAt env (minDelay p * factor p ^ (k - 1))"
  shows "(jitter p = 0 \<longrightarrow> backoffDelay env rnd (int k) p = Finite (specRawDelay k p)) \<and>
         (0 < jitter p \<and> jitter p \<le> 1 \<and> monotoneRounding env
          \<and> jitterExact env (specRawDelay k p) (jitter p) \<longrightarrow>
            (\<exists>n::int. 0 \<le> n \<and> backoffDelay env rnd (int k) p = Finite (of_int n)
               \<and> specRawDelay k p * (1 - jitter p) - 1 < of_int n
               \<and> of_int n \<le> specRawDelay k p * (1 + jitter p)))"
proof (intro conjI impI)
  assume "jitter p = 0"
  then show "backoffDelay env rnd (int k) p = Finite (specRawDelay k p)"
    using raw_delay_exact [OF k pw pr] by (simp add: backoffDelay_def)
next
  assume j: "0 < jitter p \<and> jitter p \<le> 1 \<and> monotoneRounding env
             \<and> jitterExact env (specRawDelay k p) (jitter p)"
  define raw where "raw = specRawDelay k p"
  define lo where "lo = raw - raw * jitter p"
  define hi where "hi = raw + raw * jitter p"
  define width where "width = hi - lo"
  have mono: "monotoneRounding env" using j by simp
  have ex: "exactAt env 0" "exactAt env (raw * jitter p)" "exactAt env lo" "exactAt env hi"
    "exactAt env width"
    using j by (simp_all add: jitterExact_def raw_def lo_def hi_def width_def)
  have raw0: "0 \<le> raw" unfolding raw_def by (rule specRawDelay_nonneg [OF mn mm fa])
  have w0: "0 \<le> width" using raw0 j by (simp add: width_def hi_def lo_def)
  have lo0: "0 \<le> lo"
  proof -
    have "raw * jitter p \<le> raw * 1" using raw0 j by (intro mult_left_mono) simp_all
    then show ?thesis by (simp add: lo_def)
  qed
  have "0 \<le> rnd * width" using r0 w0 by simp
  moreover have "rnd * width \<le> 1 * width" using r1 w0 by (intro mult_right_mono) simp_all
  ultimately obtain v where v: "roundResult env (rnd * width) = Finite v" "0 \<le> v" "v \<le> width"
    using rounding_between [OF mono ex(1) ex(5), of "rnd * width"] by auto
  have "lo \<le> lo + v" "lo + v \<le> hi" using v(2,3) by (simp_all add: width_def)
  then obtain u where u: "roundResult env (lo + v) = Finite u" "lo \<le> u" "u \<le> hi"
    using rounding_between [OF mono ex(3) ex(4), of "lo + v"] by auto
  have steps: "jsMul env (Finite raw) (Finite (jitter p)) = Finite (raw * jitter p)"
    "jsSub env (Finite raw) (Finite (raw * jitter p)) = Finite lo"
    "jsAdd env (Finite raw) (Finite (raw * jitter p)) = Finite hi"
    "jsSub env (Finite hi) (Finite lo) = Finite width"
    using ex by (simp_all add: exactAt_def lo_def hi_def width_def)
  have bd: "backoffDelay env rnd (int k) p = Finite (of_int \<lfloor>u\<rfloor>)"
  proof -
    have "backoffDelay env rnd (int k) p =
            jsFloor (jsAdd env (Finite lo) (jsMul env (Finite rnd) (Finite width)))"
      using j raw_delay_exact [OF k pw pr] steps
      by (simp only: backoffDelay_def Let_def raw_def [symmetric]) simp
    then show ?thesis using v(1) u(1) by simp
  qed
  have fl: "u - 1 < of_int \<lfloor>u\<rfloor>" "of_int \<lfloor>u\<rfloor> \<le> u" by linarith+
  have n0: "0 \<le> \<lfloor>u\<rfloor>" using lo0 u(2) by simp
  have ends: "lo = raw * (1 - jitter p)" "hi = raw * (1 + jitter p)"
    by (simp_all add: lo_def hi_def algebra_simps)
  have "raw * (1 - jitter p) - 1 < of_int \<lfloor>u\<rfloor>"
    using u(2) fl(1) unfolding ends by linarith
  moreover have "of_int \<lfloor>u\<rfloor> \<le> raw * (1 + jitter p)"
    using u(3) fl(2) unfolding ends by linarith
  ultimately show "\<exists>n::int. 0 \<le> n \<and> backoffDelay env rnd (int k) p = Finite (of_int n)
      \<and> specRawDelay k p * (1 - jitter p) - 1 < of_int n
      \<and> of_int n \<le> specRawDelay k p * (1 + jitter p)"
    using bd n0 unfolding raw_def by blast
qed

theorem backoffDelay_bounds_witness:
  "(1::nat) \<le> 2 \<and> 0 \<le> minDelay DEFAULT_RETRY \<and> minDelay DEFAULT_RETRY \<le> maxDelay DEFAULT_RETRY
   \<and> 1 \<le> factor DEFAULT_RETRY \<and> (0::real) \<le> 1 / 2 \<and> (1 / 2 :: real) < 1
   \<and> Math_pow plainEnv (factor DEFAULT_RETRY) (int (2 - 1)) = Finite (factor DEFAULT_RETRY ^ (2 - 1))
   \<and> exactAt plainEnv (minDelay DEFAULT_RETRY * factor DEFAULT_RETRY ^ (2 - 1))
   \<and> 0 < jitter DEFAULT_RETRY \<and> jitter DEFAULT_RETRY \<le> 1 \<and> monotoneRounding plainEnv
   \<and> jitterExact plainEnv (specRawDelay 2 DEFAULT_RETRY) (jitter DEFAULT_RETRY)
   \<and> specRawDelay 2 DEFAULT_RETRY = 600
   \<and> backoffDelay plainEnv (1 / 2) 2 DEFAULT_RETRY = Finite 600
   \<and> backoffDelay plainEnv (1 / 2) 2 (DEFAULT_RETRY\<lparr>jitter := 0\<rparr>)
       = Finite (specRawDelay 2 (DEFAULT_RETRY\<lparr>jitter := 0\<rparr>))"
proof -
  have raw: "specRawDelay 2 DEFAULT_RETRY = 600"
    "specRawDelay 2 (DEFAULT_RETRY\<lparr>jitter := 0\<rparr>) = 600"
    by (simp_all add: specRawDelay_def DEFAULT_RETRY_def)
  have pw: "Math_pow plainEnv (factor DEFAULT_RETRY) (int (2 - 1)) = Finite (factor DEFAULT_RETRY ^ (2 - 1))"
    by (simp add: plainEnv_def examplePow_def DEFAULT_RETRY_def)
  have pr: "exactAt plainEnv (minDelay DEFAULT_RETRY * factor DEFAULT_RETRY ^ (2 - 1))"
    by (simp add: exactAt_def plainEnv_def DEFAULT_RETRY_def)
  have je: "jitterExact plainEnv (specRawDelay 2 DEFAULT_RETRY) (jitter DEFAULT_RETRY)"
    unfolding raw by (simp add: jitterExact_def exactAt_def plainEnv_def DEFAULT_RETRY_def)
  have pol: "0 \<le> minDelay DEFAULT_RETRY" "minDelay DEFAULT_RETRY \<le> maxDelay DEFAULT_RETRY"
    "1 \<le> factor DEFAULT_RETRY" "0 < jitter DEFAULT_RETRY" "jitter DEFAULT_RETRY \<le> 1"
    by (simp_all add: DEFAULT_RETRY_def)
  have run: "backoffDelay plainEnv (1 / 2) 2 DEFAULT_RETRY = Finite 600"
    by (simp add: backoffDelay_def plainEnv_def examplePow_def DEFAULT_RETRY_def)
  show ?thesis
    using backoffDelay_bounds [of 2 DEFAULT_RETRY "1 / 2" plainEnv]
      backoffDelay_bounds [of 2 "DEFAULT_RETRY\<lparr>jitter := 0\<rparr>" "1 / 2" plainEnv]
      raw pw pr je pol run monotoneRounding_plainEnv
    by simp
qed

section \<open>Parsing a response as JSON\<close>

lemma trim_blank: "\<forall>c\<in>set raw. isWhiteSpace c \<Longrightarrow> trim raw = []"
  by (auto simp: trim_def dest: set_dropWhileD)

text \<open>
  C10: with the \<open>json\<close> parser (given, or by default when no parser is given) a response
  with status 204 or 205, or with an empty or whitespace-only body, parses to
  \<open>undefined\<close>; \<open>JSON.parse\<close> is not consulted, whatever it would do.
\<close>

theorem parseResponse_json_no_content:
  assumes "parser = None \<or> parser = Some ParseJson"
    and "status res = 204 \<or> status res = 205 \<or> body res = []
         \<or> (\<forall>c\<in>set (body res). isWhiteSpace c)"
  shows "parseResponse JSON_parse res parser = Inr Undefined"
  using assms by (auto simp: parseResponse_def Let_def trim_blank)

theorem parseResponse_json_no_content_witness:
  "status blankBody = 200 \<and> body blankBody \<noteq> []
   \<and> parseResponse rejectAll blankBody (Some ParseJson) = Inr Undefined
   \<and> parseResponse rejectAll (blankBody\<lparr>status := 204, body := ''x''\<rparr>) None = Inr Undefined"
  using parseResponse_json_no_content [of "Some ParseJson" blankBody rejectAll]
    parseResponse_json_no_content [of None "blankBody\<lparr>status := 204, body := ''x''\<rparr>" rejectAll]
  by (simp add: blankBody_def isWhiteSpace_def)

section \<open>The structure of one attempt\<close>

lemma logEvent_fields [simp]:
  "now (logEvent e s) = now s" "baseSignal (logEvent e s) = baseSignal s" "listener (logEvent e s) = listener s"
  "timer (logEvent e s) = timer s" "fired (logEvent e s) = fired s" "trace (logEvent e s) = e # trace s"
  by (simp_all add: logEvent_def)

lemma cleanup_fields [simp]:
  "now (cleanup s) = now s" "baseSignal (cleanup s) = baseSignal s" "listener (cleanup s) = False"
  "timer (cleanup s) = None" "fired (cleanup s) = fired s" "trace (cleanup s) = Cleanup # trace s"
  by (simp_all add: cleanup_def)

lemma advance_fields:
  "now (advance w k t s) = max (now s) t"
  "baseSignal (advance w k t s) = baseSignal s"
  "listener (advance w k t s) = listener s"
  "timer (advance w k t s) = (case timerDue t s of None \<Rightarrow> timer s | Some d \<Rightarrow> None)"
  "fired (advance w k t s) = (case fired s of Some r \<Rightarrow> Some r | None \<Rightarrow> strikes t s)"
  "trace (advance w k t s) =
     (case fired s of Some r \<Rightarrow> trace s
      | None \<Rightarrow> (case strikes t s of None \<Rightarrow> trace s | Some r \<Rightarrow> Fired r w k # trace s))"
  by (simp_all add: advance_def)

text \<open>
  A property of the state that every step of an attempt preserves holds where the attempt
  ends.
\<close>

lemma runHook_invariant:
  assumes adv: "\<And>s w t. I s \<Longrightarrow> I (advance w k t s)" and "I s"
  shows "I (snd (runHook h k s))"
  using assms by (simp add: runHook_def elapse_def split: option.splits)

lemma callFetch_invariant:
  assumes adv: "\<And>s w t. I s \<Longrightarrow> I (advance w k t s)"
    and tc: "\<And>s. I s \<Longrightarrow> I (logEvent (TransportCall k (now s)) s)" and "I s"
  shows "I (snd (callFetch env f k s))"
  using assms by (simp add: callFetch_def elapse_def await_def Let_def split: option.splits)

lemma sleep_invariant:
  assumes adv: "\<And>s w t. I s \<Longrightarrow> I (advance w k t s)"
    and sc: "\<And>s ms. I s \<Longrightarrow> I (logEvent (SleepCall k ms (now s)) s)" and "I s"
  shows "I (snd (sleep env k ms s))"
  using assms by (simp add: sleep_def await_def Let_def split: option.splits)

lemma try_block_cases [case_names before_throws fetch_throws after_throws returns wait_rejected wait_resolved]:
  obtains
    (before_throws) e s1 where
      "runHook (beforeRequest env) k s = (Some e, s1)"
      "try_block env f pol tot k s = Throw e s1"
  | (fetch_throws) s1 e s2 where
      "runHook (beforeRequest env) k s = (None, s1)"
      "callFetch env f k s1 = (Inl e, s2)"
      "try_block env f pol tot k s = Throw e s2"
  | (after_throws) s1 res s2 e s3 where
      "runHook (beforeRequest env) k s = (None, s1)"
      "callFetch env f k s1 = (Inr res, s2)"
      "runHook (afterResponse env) k s2 = (Some e, s3)"
      "try_block env f pol tot k s = Throw e s3"
  | (returns) s1 res s2 s3 where
      "runHook (beforeRequest env) k s = (None, s1)"
      "callFetch env f k s1 = (Inr res, s2)"
      "runHook (afterResponse env) k s2 = (None, s3)"
      "try_block env f pol tot k s = Return res (cleanup s3)"
  | (wait_rejected) s1 res s2 s3 p ms e s4 where
      "runHook (beforeRequest env) k s = (None, s1)"
      "callFetch env f k s1 = (Inr res, s2)"
      "runHook (afterResponse env) k s2 = (None, s3)"
      "pol = Some p" "k < tot"
      "sleep env k ms s3 = (Some e, s4)"
      "try_block env f pol tot k s = Throw e s4"
  | (wait_resolved) s1 res s2 s3 p ms s4 where
      "runHook (beforeRequest env) k s = (None, s1)"
      "callFetch env f k s1 = (Inr res, s2)"
      "runHook (afterResponse env) k s2 = (None, s3)"
      "pol = Some p" "k < tot"
      "sleep env k ms s3 = (None, s4)"
      "try_block env f pol tot k s = Continue s4"
proof -
  obtain o1 s1 where h1: "runHook (beforeRequest env) k s = (o1, s1)"
    by (cases "runHook (beforeRequest env) k s")
  show thesis
  proof (cases o1)
    case (Some e)
    with h1 show thesis by (intro before_throws [of e s1]) (simp_all add: try_block_def)
  next
    case b: None
    obtain r2 s2 where h2: "callFetch env f k s1 = (r2, s2)"
      by (cases "callFetch env f k s1")
    show thesis
    proof (cases r2)
      case (Inl e)
      with h1 h2 b show thesis by (intro fetch_throws [of s1 e s2]) (simp_all add: try_block_def)
    next
      case r: (Inr res)
      obtain o3 s3 where h3: "runHook (afterResponse env) k s2 = (o3, s3)"
        by (cases "runHook (afterResponse env) k s2")
      show thesis
      proof (cases o3)
        case (Some e)
        with h1 h2 h3 b r show thesis
          by (intro after_throws [of s1 res s2 e s3]) (simp_all add: try_block_def)
      next
        case a: None
        define go where "go \<longleftrightarrow>
          (case pol of None \<Rightarrow> False
           | Some p \<Rightarrow> \<not> ok res \<and> status res \<in> set (statusCodes p) \<and> k < tot)"
        show thesis
        proof (cases go)
          case False
          then have "try_block env f pol tot k s = Return res (cleanup s3)"
            using h1 h2 h3 b r a by (cases pol) (auto simp: try_block_def go_def)
          with h1 h2 h3 b r a show thesis
            by (intro returns [of s1 res s2 s3]) simp_all
        next
          case True
          then obtain p where p: "pol = Some p" "\<not> ok res" "status res \<in> set (statusCodes p)" "k < tot"
            by (auto simp: go_def split: option.splits)
          define ms where "ms =
            (case (if respectRetryAfterHeader p then parseRetryAfter env (now s3) res else None) of
               Some hint \<Rightarrow> hint | None \<Rightarrow> backoffDelay env (random env k) k p)"
          obtain o4 s4 where h4: "sleep env k ms s3 = (o4, s4)" by (cases "sleep env k ms s3")
          show thesis
          proof (cases o4)
            case None
            with h1 h2 h3 h4 b r a p show thesis
              by (intro wait_resolved [of s1 res s2 s3 p ms s4])
                 (simp_all add: try_block_def ms_def Let_def)
          next
            case (Some e)
            with h1 h2 h3 h4 b r a p show thesis
              by (intro wait_rejected [of s1 res s2 s3 p ms e s4])
                 (simp_all add: try_block_def ms_def Let_def)
          qed
        qed
      qed
    qed
  qed
qed


lemma attempt_body_cases [case_names returned continued aborted failed backoff_rejected backoff_resolved]:
  obtains
    (returned) res s1 where
      "try_block env f pol tot k s = Return res s1"
      "attempt_body env f pol tot k le s = Done (Inr res) s1"
  | (continued) s1 where
      "try_block env f pol tot k s = Continue s1"
      "attempt_body env f pol tot k le s = Next le s1"
  | (aborted) e s1 where
      "try_block env f pol tot k s = Throw e s1" "isAbortError e"
      "attempt_body env f pol tot k le s = Done (Inl e) (cleanup s1)"
  | (failed) e s1 where
      "try_block env f pol tot k s = Throw e s1" "\<not> isAbortError e" "pol = None \<or> tot \<le> k"
      "attempt_body env f pol tot k le s = Done (Inl e) (cleanup s1)"
  | (backoff_rejected) e s1 p a s2 where
      "try_block env f pol tot k s = Throw e s1" "\<not> isAbortError e" "pol = Some p" "k < tot"
      "sleep env k (backoffDelay env (random env k) k p) s1 = (Some a, s2)"
      "attempt_body env f pol tot k le s = Done (Inl a) s2"
  | (backoff_resolved) e s1 p s2 where
      "try_block env f pol tot k s = Throw e s1" "\<not> isAbortError e" "pol = Some p" "k < tot"
      "sleep env k (backoffDelay env (random env k) k p) s1 = (None, s2)"
      "attempt_body env f pol tot k le s = Next (Some e) s2"
proof (cases "try_block env f pol tot k s")
  case (Return res s1)
  then show thesis by (intro returned [of res s1]) (simp_all add: attempt_body_def)
next
  case (Continue s1)
  then show thesis by (intro continued [of s1]) (simp_all add: attempt_body_def)
next
  case t: (Throw e s1)
  show thesis
  proof (cases "isAbortError e")
    case True
    with t show thesis by (intro aborted [of e s1]) (simp_all add: attempt_body_def)
  next
    case na: False
    show thesis
    proof (cases pol)
      case None
      with t na show thesis by (intro failed [of e s1]) (simp_all add: attempt_body_def)
    next
      case p: (Some p)
      show thesis
      proof (cases "tot \<le> k")
        case True
        with t na p show thesis by (intro failed [of e s1]) (simp_all add: attempt_body_def)
      next
        case False
        obtain o2 s2 where h: "sleep env k (backoffDelay env (random env k) k p) s1 = (o2, s2)"
          by (cases "sleep env k (backoffDelay env (random env k) k p) s1")
        show thesis
        proof (cases o2)
          case None
          with t na p False h show thesis
            by (intro backoff_resolved [of e s1 p s2]) (simp_all add: attempt_body_def)
        next
          case (Some a)
          with t na p False h show thesis
            by (intro backoff_rejected [of e s1 p a s2]) (simp_all add: attempt_body_def)
        qed
      qed
    qed
  qed
qed

text \<open>Invariants along one attempt.\<close>

lemma try_block_invariant:
  assumes adv: "\<And>s w t. I s \<Longrightarrow> I (advance w k t s)"
    and tc: "\<And>s. I s \<Longrightarrow> I (logEvent (TransportCall k (now s)) s)"
    and sc: "\<And>s ms. I s \<Longrightarrow> I (logEvent (SleepCall k ms (now s)) s)"
    and i: "I s"
  shows "(\<forall>res s'. try_block env f pol tot k s = Return res s' \<longrightarrow> (\<exists>s3. I s3 \<and> s' = cleanup s3))
       \<and> (\<forall>s'. try_block env f pol tot k s = Continue s' \<longrightarrow> I s')
       \<and> (\<forall>e s'. try_block env f pol tot k s = Throw e s' \<longrightarrow> I s')"
proof -
  have hook: "I (snd (runHook h k x))" if "I x" for h x
    by (rule runHook_invariant [of I k, OF adv that])
  have fetch: "I (snd (callFetch env f k x))" if "I x" for x
    by (rule callFetch_invariant [of I k, OF adv tc that])
  have slp: "I (snd (sleep env k ms x))" if "I x" for x ms
    by (rule sleep_invariant [of I k, OF adv sc that])
  show ?thesis
  proof (cases rule: try_block_cases [of env k s f pol tot])
    case (before_throws e s1)
    then show ?thesis using hook [OF i, of "beforeRequest env"] by simp
  next
    case (fetch_throws s1 e s2)
    then show ?thesis using hook [OF i, of "beforeRequest env"] fetch [of s1] by simp
  next
    case (after_throws s1 res s2 e s3)
    then show ?thesis
      using hook [OF i, of "beforeRequest env"] fetch [of s1] hook [of s2 "afterResponse env"]
      by simp
  next
    case (returns s1 res s2 s3)
    then show ?thesis
      using hook [OF i, of "beforeRequest env"] fetch [of s1] hook [of s2 "afterResponse env"]
      by auto
  next
    case (wait_rejected s1 res s2 s3 p ms e s4)
    then show ?thesis
      using hook [OF i, of "beforeRequest env"] fetch [of s1] hook [of s2 "afterResponse env"]
        slp [of s3 ms]
      by simp
  next
    case (wait_resolved s1 res s2 s3 p ms s4)
    then show ?thesis
      using hook [OF i, of "beforeRequest env"] fetch [of s1] hook [of s2 "afterResponse env"]
        slp [of s3 ms]
      by simp
  qed
qed

lemma attempt_body_next_invariant:
  assumes adv: "\<And>s w t. I s \<Longrightarrow> I (advance w k t s)"
    and tc: "\<And>s. I s \<Longrightarrow> I (logEvent (TransportCall k (now s)) s)"
    and sc: "\<And>s ms. I s \<Longrightarrow> I (logEvent (SleepCall k ms (now s)) s)"
    and i: "I s"
    and nx: "attempt_body env f pol tot k le s = Next e s'"
  shows "I s'"
proof -
  note tb = try_block_invariant [of I k, OF adv tc sc i, of env f pol tot]
  have slp: "I (snd (sleep env k ms x))" if "I x" for x ms
    by (rule sleep_invariant [of I k, OF adv sc that])
  show ?thesis
  proof (cases rule: attempt_body_cases [of env f pol tot k s le])
    case (continued s1)
    then show ?thesis using tb nx by simp
  next
    case (backoff_resolved e s1 p s2)
    then have "I s1" using tb by simp
    from slp [OF this, of "backoffDelay env (random env k) k p"] backoff_resolved nx
    show ?thesis by simp
  qed (use nx in simp_all)
qed

lemma attempt_body_invariant:
  assumes adv: "\<And>s w t. I s \<Longrightarrow> I (advance w k t s)"
    and tc: "\<And>s. I s \<Longrightarrow> I (logEvent (TransportCall k (now s)) s)"
    and sc: "\<And>s ms. I s \<Longrightarrow> I (logEvent (SleepCall k ms (now s)) s)"
    and cl: "\<And>s. I s \<Longrightarrow> I (cleanup s)"
    and i: "I s"
  shows "I (iter_state (attempt_body env f pol tot k le s))"
proof -
  note tb = try_block_invariant [of I k, OF adv tc sc i, of env f pol tot]
  have slp: "I (snd (sleep env k ms x))" if "I x" for x ms
    by (rule sleep_invariant [of I k, OF adv sc that])
  show ?thesis
  proof (cases rule: attempt_body_cases [of env f pol tot k s le])
    case (returned res s1)
    then show ?thesis using tb cl by auto
  next
    case (continued s1)
    then show ?thesis using tb by simp
  next
    case (aborted e s1)
    then show ?thesis using tb cl by simp
  next
    case (failed e s1)
    then show ?thesis using tb cl by simp
  next
    case (backoff_rejected e s1 p a s2)
    then have "I s1" using tb by simp
    from slp [OF this, of "backoffDelay env (random env k) k p"] backoff_rejected
    show ?thesis by simp
  next
    case (backoff_resolved e s1 p s2)
    then have "I s1" using tb by simp
    from slp [OF this, of "backoffDelay env (random env k) k p"] backoff_resolved
    show ?thesis by simp
  qed
qed


subsection \<open>Facts about single operations\<close>

lemma filter_trace_advance:
  "(\<And>r. \<not> P (Fired r w k)) \<Longrightarrow> filter P (trace (advance w k t s)) = filter P (trace s)"
  by (simp add: advance_fields split: option.splits)

lemma sleep_rejected: "sleep env k ms s = (Some a, s') \<Longrightarrow> a = AbortedDOMException \<and> fired s' \<noteq> None"
  by (auto simp: sleep_def Let_def split: if_splits)

lemma sleep_resolved: "sleep env k ms s = (None, s') \<Longrightarrow> fired s' = None"
  by (auto simp: sleep_def Let_def split: if_splits)

lemma advance_mem:
  "e \<in> set (trace (advance w k t s)) \<Longrightarrow>
     e \<in> set (trace s) \<or> (\<exists>r. e = Fired r w k \<and> fired s = None \<and> fired (advance w k t s) = Some r)"
  by (auto simp: advance_fields split: option.splits)

lemma runHook_fired:
  assumes "runHook h k s = (out, s')" "Fired rr w n \<in> set (trace s')"
  shows "Fired rr w n \<in> set (trace s) \<or> (w = AwaitHook \<and> n = k)"
  using assms
  by (auto simp: runHook_def elapse_def split: option.splits dest!: advance_mem)

lemma callFetch_fired:
  assumes "callFetch env f k s = (out, s')" "Fired rr w n \<in> set (trace s')"
  shows "Fired rr w n \<in> set (trace s)
         \<or> (w = AwaitTransport \<and> n = k \<and> (fetchObservesSignal env \<longrightarrow> out = Inl rr))"
  using assms
  by (auto simp: callFetch_def elapse_def await_def Let_def split: option.splits if_splits
      dest!: advance_mem)

lemma transportCalls_log [simp]:
  "transportCalls (logEvent e s) = (if isTransportCall e then Suc (transportCalls s) else transportCalls s)"
  by (simp add: transportCalls_def)

lemma transportCalls_cleanup [simp]: "transportCalls (cleanup s) = transportCalls s"
  by (simp add: transportCalls_def)

lemma transportCalls_advance [simp]: "transportCalls (advance w k t s) = transportCalls s"
  by (simp add: transportCalls_def filter_trace_advance)

lemma transportCalls_runHook: "runHook h k s = (out, s') \<Longrightarrow> transportCalls s' = transportCalls s"
  by (auto simp: runHook_def elapse_def split: option.splits)

lemma transportCalls_callFetch:
  "callFetch env f k s = (out, s') \<Longrightarrow> transportCalls s' = Suc (transportCalls s)"
  by (auto simp: callFetch_def elapse_def await_def Let_def split: option.splits if_splits)

lemma transportCalls_sleep: "sleep env k ms s = (out, s') \<Longrightarrow> transportCalls s' = transportCalls s"
  by (auto simp: sleep_def await_def Let_def split: if_splits)

lemma transportCalls_try_block:
  "transportCalls (try_state (try_block env f pol tot k s)) =
     (if fst (runHook (beforeRequest env) k s) = None then Suc (transportCalls s) else transportCalls s)"
proof (cases rule: try_block_cases [of env k s f pol tot])
  case (before_throws e s1)
  then show ?thesis by (simp add: transportCalls_runHook)
next
  case (fetch_throws s1 e s2)
  then show ?thesis by (simp add: transportCalls_runHook transportCalls_callFetch)
next
  case (after_throws s1 res s2 e s3)
  then show ?thesis by (simp add: transportCalls_runHook transportCalls_callFetch)
next
  case (returns s1 res s2 s3)
  then show ?thesis by (simp add: transportCalls_runHook transportCalls_callFetch)
next
  case (wait_rejected s1 res s2 s3 p ms e s4)
  then show ?thesis by (simp add: transportCalls_runHook transportCalls_callFetch transportCalls_sleep)
next
  case (wait_resolved s1 res s2 s3 p ms s4)
  then show ?thesis by (simp add: transportCalls_runHook transportCalls_callFetch transportCalls_sleep)
qed

lemma transportCalls_attempt_body:
  "transportCalls (iter_state (attempt_body env f pol tot k le s)) =
     (if fst (runHook (beforeRequest env) k s) = None then Suc (transportCalls s) else transportCalls s)"
proof (cases rule: attempt_body_cases [of env f pol tot k s le])
  case (returned res s1)
  then show ?thesis using transportCalls_try_block [of env f pol tot k s] by simp
next
  case (continued s1)
  then show ?thesis using transportCalls_try_block [of env f pol tot k s] by simp
next
  case (aborted e s1)
  then show ?thesis using transportCalls_try_block [of env f pol tot k s] by simp
next
  case (failed e s1)
  then show ?thesis using transportCalls_try_block [of env f pol tot k s] by simp
next
  case (backoff_rejected e s1 p a s2)
  then show ?thesis using transportCalls_try_block [of env f pol tot k s]
    by (simp add: transportCalls_sleep)
next
  case (backoff_resolved e s1 p s2)
  then show ?thesis using transportCalls_try_block [of env f pol tot k s]
    by (simp add: transportCalls_sleep)
qed


subsection \<open>The ways an attempt ends\<close>

text \<open>
  An attempt runs its hooks and the transport, and then ends in one of four ways: it
  throws, it returns the transport's response, or it waits, and the wait is either
  resolved, which leads to the next attempt, or rejected, which ends the request.
  \<open>I\<close> is any property that the hooks and the transport call preserve.
\<close>

lemma isAbortError_Aborted [simp]: "isAbortError AbortedDOMException"
  by (simp add: isAbortError_def AbortedDOMException_def)

lemma attempt_body_ends:
  assumes hk: "\<And>h x. h = beforeRequest env \<or> h = afterResponse env \<Longrightarrow> I x
                 \<Longrightarrow> I (snd (runHook h k x))"
    and ft: "\<And>x. I x \<Longrightarrow> I (snd (callFetch env f k x))"
    and i: "I s"
  obtains
    (threw) e x where "I x" "attempt_body env f pol tot k le s = Done (Inl e) (cleanup x)"
  | (returned) res x1 x2 where "I x1" "callFetch env f k x1 = (Inr res, x2)"
      "attempt_body env f pol tot k le s
         = Done (Inr res) (cleanup (snd (runHook (afterResponse env) k x2)))"
  | (wait_next) x ms y e where "I x" "sleep env k ms x = (None, y)"
      "attempt_body env f pol tot k le s = Next e y"
  | (wait_done) x ms a y where "I x" "sleep env k ms x = (Some a, y)"
      "attempt_body env f pol tot k le s = Done (Inl a) y
       \<or> attempt_body env f pol tot k le s = Done (Inl a) (cleanup y)"
proof -
  have thrown: thesis if t: "try_block env f pol tot k s = Throw e x" and x: "I x" for e x
  proof (cases "isAbortError e \<or> pol = None \<or> tot \<le> k")
    case True
    then have "attempt_body env f pol tot k le s = Done (Inl e) (cleanup x)"
      using t by (auto simp: attempt_body_def split: option.splits)
    then show thesis using threw x by blast
  next
    case False
    then obtain p where p: "pol = Some p" "\<not> isAbortError e" "\<not> tot \<le> k" by auto
    obtain o2 y where h: "sleep env k (backoffDelay env (random env k) k p) x = (o2, y)"
      by (cases "sleep env k (backoffDelay env (random env k) k p) x")
    show thesis
    proof (cases o2)
      case None
      then have "attempt_body env f pol tot k le s = Next (Some e) y"
        using t p h by (simp add: attempt_body_def)
      then show thesis using wait_next x h None by blast
    next
      case (Some a)
      then have "attempt_body env f pol tot k le s = Done (Inl a) y"
        using t p h by (simp add: attempt_body_def)
      then show thesis using wait_done x h Some by blast
    qed
  qed
  have b: "I (snd (runHook (beforeRequest env) k s))" using hk i by blast
  show thesis
  proof (cases rule: try_block_cases [of env k s f pol tot])
    case (before_throws e s1)
    then show thesis using thrown b by simp
  next
    case (fetch_throws s1 e s2)
    then show thesis using thrown b ft [of s1] by simp
  next
    case (after_throws s1 res s2 e s3)
    then have "I s3" using b ft [of s1] hk [of "afterResponse env" s2] by simp
    then show thesis using thrown after_throws by simp
  next
    case (returns s1 res s2 s3)
    then have "I s1" using b by simp
    moreover have "attempt_body env f pol tot k le s
        = Done (Inr res) (cleanup (snd (runHook (afterResponse env) k s2)))"
      using returns by (simp add: attempt_body_def)
    ultimately show thesis using returned returns(2) by blast
  next
    case (wait_rejected s1 res s2 s3 p ms e s4)
    then have x: "I s3" using b ft [of s1] hk [of "afterResponse env" s2] by simp
    have "e = AbortedDOMException" using sleep_rejected [OF wait_rejected(6)] by simp
    then have "attempt_body env f pol tot k le s = Done (Inl e) (cleanup s4)"
      using wait_rejected by (simp add: attempt_body_def)
    then show thesis using wait_done x wait_rejected(6) by blast
  next
    case (wait_resolved s1 res s2 s3 p ms s4)
    then have x: "I s3" using b ft [of s1] hk [of "afterResponse env" s2] by simp
    have "attempt_body env f pol tot k le s = Next le s4"
      using wait_resolved by (simp add: attempt_body_def)
    then show thesis using wait_next x wait_resolved(6) by blast
  qed
qed
section \<open>The loop over the attempts\<close>

lemma attempts_step:
  "k \<le> tot \<Longrightarrow>
   attempts env f pol tot k le s =
     (case attempt_body env f pol tot k le (logEvent (AttemptStart k (now s)) s) of
        Done r s' \<Rightarrow> (r, s')
      | Next e s' \<Rightarrow> attempts env f pol tot (k + 1) e s')"
  by (subst attempts.simps) simp

lemma attempts_exit:
  "\<not> k \<le> tot \<Longrightarrow>
   attempts env f pol tot k le s =
     (Inl (case le of Some e \<Rightarrow> e | None \<Rightarrow> RequestFailed), cleanup s)"
  by (subst attempts.simps) simp

declare attempts.simps [simp del]

lemma attempts_invariant:
  assumes adv: "\<And>s w k t. I s \<Longrightarrow> I (advance w k t s)"
    and tc: "\<And>s k. I s \<Longrightarrow> I (logEvent (TransportCall k (now s)) s)"
    and sc: "\<And>s k ms. I s \<Longrightarrow> I (logEvent (SleepCall k ms (now s)) s)"
    and cl: "\<And>s. I s \<Longrightarrow> I (cleanup s)"
    and st: "\<And>s k. I s \<Longrightarrow> I (logEvent (AttemptStart k (now s)) s)"
    and i: "I s"
  shows "I (snd (attempts env f pol tot k le s))"
  using i
proof (induction env f pol tot k le s rule: attempts.induct)
  case (1 env f pol tot k le s)
  show ?case
  proof (cases "k \<le> tot")
    case False
    then show ?thesis using cl [OF "1.prems"] by (simp add: attempts_exit)
  next
    case True
    let ?s0 = "logEvent (AttemptStart k (now s)) s"
    have b: "I (iter_state (attempt_body env f pol tot k le ?s0))"
      by (rule attempt_body_invariant [of I k, OF adv tc sc cl st [OF "1.prems"]])
    show ?thesis
    proof (cases "attempt_body env f pol tot k le ?s0")
      case (Done r s')
      with b True show ?thesis by (simp add: attempts_step)
    next
      case (Next e s')
      with b have "I s'" by simp
      from "1.IH" [OF True Next this] True Next show ?thesis by (simp add: attempts_step)
    qed
  qed
qed

text \<open>
  The ways a request ends. \<open>J k\<close> holds of the state in which attempt \<open>k\<close> is about to
  start, \<open>I k\<close> of the states within it, up to its wait.
\<close>

lemma attempts_ends:
  assumes run: "attempts env f pol tot k le s = (r, s')"
    and j: "J k s"
    and st: "\<And>k s. J k s \<Longrightarrow> k \<le> tot \<Longrightarrow> I k (logEvent (AttemptStart k (now s)) s)"
    and hk: "\<And>k h x. h = beforeRequest env \<or> h = afterResponse env \<Longrightarrow> I k x
                 \<Longrightarrow> I k (snd (runHook h k x))"
    and ft: "\<And>k x. I k x \<Longrightarrow> I k (snd (callFetch env f k x))"
    and sl: "\<And>k x ms y. I k x \<Longrightarrow> sleep env k ms x = (None, y) \<Longrightarrow> J (k + 1) y"
  obtains
    (threw) n e x where "I n x" "r = Inl e" "s' = cleanup x"
  | (returned) n res x1 x2 where "I n x1" "callFetch env f n x1 = (Inr res, x2)" "r = Inr res"
      "s' = cleanup (snd (runHook (afterResponse env) n x2))"
  | (cancelled) n x ms a y where "I n x" "sleep env n ms x = (Some a, y)" "r = Inl a"
      "s' = y \<or> s' = cleanup y"
  | (exhausted) n x where "J n x" "s' = cleanup x" "\<exists>e. r = Inl e"
  using run j st hk ft sl
proof (induction env f pol tot k le s arbitrary: thesis rule: attempts.induct)
  case (1 env f pol tot k le s)
  note run = "1.prems"(5) and j = "1.prems"(6) and st = "1.prems"(7) and hk = "1.prems"(8)
    and ft = "1.prems"(9) and sl = "1.prems"(10)
  show ?case
  proof (cases "k \<le> tot")
    case False
    then have "s' = cleanup s" "\<exists>e. r = Inl e" using run by (auto simp: attempts_exit)
    then show ?thesis using "1.prems"(4) j by blast
  next
    case True
    let ?s0 = "logEvent (AttemptStart k (now s)) s"
    show ?thesis
    proof (rule attempt_body_ends [of env "I k" k f ?s0 pol tot le], goal_cases)
      case (1 h x)
      then show ?case by (rule hk)
    next
      case (2 x)
      then show ?case by (rule ft)
    next
      case 3
      show ?case by (rule st [OF j True])
    next
      case (4 e x)
      then have "r = Inl e" "s' = cleanup x" using run True by (simp_all add: attempts_step)
      then show ?case using "1.prems"(1) 4(1) by blast
    next
      case (5 res x1 x2)
      then have "r = Inr res" "s' = cleanup (snd (runHook (afterResponse env) k x2))"
        using run True by (simp_all add: attempts_step)
      then show ?case using "1.prems"(2) 5(1,2) by blast
    next
      case (6 x ms y e)
      then have run': "attempts env f pol tot (k + 1) e y = (r, s')"
        using run True by (simp add: attempts_step)
      have j': "J (k + 1) y" by (rule sl [OF 6(1,2)])
      show ?case
        by (rule "1.IH" [OF True 6(3) "1.prems"(1) "1.prems"(2) "1.prems"(3) "1.prems"(4)
              run' j' st hk ft sl])
    next
      case (7 x ms a y)
      then have "r = Inl a" "s' = y \<or> s' = cleanup y"
        using run True by (auto simp: attempts_step)
      then show ?case using "1.prems"(3) 7(1,2) by blast
    qed
  qed
qed

lemma attempt_body_last:
  assumes "pol = None \<or> tot \<le> k"
  shows "\<exists>r s'. attempt_body env f pol tot k le s = Done r s'"
proof (cases rule: attempt_body_cases [of env f pol tot k s le])
  case (continued s1)
  then show ?thesis
    using assms by (cases rule: try_block_cases [of env k s f pol tot]) auto
qed (use assms in auto)

lemma transportCalls_attempts:
  "transportCalls (snd (attempts env f pol tot k le s)) \<le> transportCalls s + nat (tot + 1 - k)"
proof (induction env f pol tot k le s rule: attempts.induct)
  case (1 env f pol tot k le s)
  show ?case
  proof (cases "k \<le> tot")
    case False
    then show ?thesis by (simp add: attempts_exit)
  next
    case True
    let ?s0 = "logEvent (AttemptStart k (now s)) s"
    have b: "transportCalls (iter_state (attempt_body env f pol tot k le ?s0)) \<le> Suc (transportCalls s)"
      by (simp add: transportCalls_attempt_body)
    show ?thesis
    proof (cases "attempt_body env f pol tot k le ?s0")
      case (Done r s')
      with b True show ?thesis by (simp add: attempts_step)
    next
      case (Next e s')
      with b have "transportCalls s' \<le> Suc (transportCalls s)" by simp
      moreover have "nat (tot + 1 - (k + 1)) + 1 = nat (tot + 1 - k)" using True by simp
      ultimately show ?thesis
        using "1.IH" [OF True Next] True Next by (simp add: attempts_step)
    qed
  qed
qed

lemma attemptsStarted_attempt_body:
  "attemptsStarted (iter_state (attempt_body env f pol tot k le s)) = attemptsStarted s"
  by (rule attempt_body_invariant [of "\<lambda>x. attemptsStarted x = attemptsStarted s" k])
     (simp_all add: attemptsStarted_def filter_trace_advance)

lemma attempts_single:
  assumes "pol = None \<or> tot = k"  and "k \<le> tot"
  shows "attemptsStarted (snd (attempts env f pol tot k le s)) = Suc (attemptsStarted s)
     \<and> transportCalls (snd (attempts env f pol tot k le s)) =
        (if fst (runHook (beforeRequest env) k (logEvent (AttemptStart k (now s)) s)) = None
         then Suc (transportCalls s) else transportCalls s)"
proof -
  let ?s0 = "logEvent (AttemptStart k (now s)) s"
  from assms obtain r s' where d: "attempt_body env f pol tot k le ?s0 = Done r s'"
    using attempt_body_last [of pol tot k env f le ?s0] by auto
  have "attemptsStarted s' = attemptsStarted ?s0"
    using attemptsStarted_attempt_body [of env f pol tot k le ?s0] d by simp
  moreover have "transportCalls s' =
      (if fst (runHook (beforeRequest env) k ?s0) = None then Suc (transportCalls ?s0) else transportCalls ?s0)"
    using transportCalls_attempt_body [of env f pol tot k le ?s0] d by simp
  ultimately show ?thesis using d assms(2) by (simp add: attempts_step attemptsStarted_def)
qed

lemma composeSignal_counts:
  "transportCalls (composeSignal env b tm (idle t)) = 0"
  "attemptsStarted (composeSignal env b tm (idle t)) = 0"
  by (auto simp: composeSignal_def idle_def transportCalls_def attemptsStarted_def logEvent_def
      Let_def split: option.splits)

lemma runHook_first:
  "fst (runHook h k s) = (case h of None \<Rightarrow> None | Some g \<Rightarrow> snd (g k))"
  by (simp add: runHook_def split: option.splits)

lemmas run_defs =
  requestWithRetry_def composeSignal_def idle_def attempts_step attempts_exit attempt_body_def
  try_block_def runHook_def callFetch_def sleep_def await_def nextDue_def elapse_def
  advance_fields isAbortError_def strikes_def timerDue_def callerDue_def ok_def
  backoffDelay_def parseRetryAfter_def Let_def transportCalls_def attemptsStarted_def
  timersStarted_def cleanups_def DEFAULT_RETRY_def AbortedDOMException_def
  defaultAbortReason_def RequestFailed_def timeoutExpiry_def nodeTimerDelay_def
  examplePow_def

lemmas scenario_defs =
  plainEnv_def always503_def hookFailsOnce_def failsOnce_def oneRetry_def noRetries_def
  okResponse_def unavailable_def networkError_def hookError_def retryIn7_def busyEnv_def
  datedEnv_def retryAtDate_def abortsAt100_def abortedAt0_def emptyMethods_def retryGetOnly_def
  slowEnv_def retryIn250ms_def hintingEnv_def threeRetries_def responseRejected_def deafEnv_def

section \<open>The number of transport invocations\<close>

text \<open>
  C4, as the claim states it, fails: with \<open>retries = 0\<close> and a \<open>beforeRequest\<close> hook
  that throws, the failure propagates before the transport is reached, and the
  transport is invoked zero times, not once.
\<close>

theorem no_transport_when_hook_throws:
  "retries noRetries = 0
   \<and> fst (requestWithRetry hookFailsOnce None None (Some noRetries) 0) = Inl hookError
   \<and> transportCalls (snd (requestWithRetry hookFailsOnce None None (Some noRetries) 0)) = 0"
  by (simp add: run_defs scenario_defs)

text \<open>
  C4, amended: for a policy with \<open>retries \<ge> 0\<close> the transport is invoked at most
  \<open>retries + 1\<close> times per logical request; with \<open>retries = 0\<close> there is exactly one
  attempt (when a transport is available) and at most one transport invocation: exactly
  one when the \<open>beforeRequest\<close> hook of that attempt is absent or returns, none when
  it throws.
\<close>

theorem transport_invocations_bounded:
  assumes "0 \<le> retries p"
  shows "int (transportCalls (snd (requestWithRetry env sig tmo (Some p) t))) \<le> retries p + 1
       \<and> (retries p = 0 \<longrightarrow>
            transportCalls (snd (requestWithRetry env sig tmo (Some p) t)) \<le> 1
            \<and> (fetchFn env \<noteq> None \<longrightarrow>
                 attemptsStarted (snd (requestWithRetry env sig tmo (Some p) t)) = 1
                 \<and> transportCalls (snd (requestWithRetry env sig tmo (Some p) t)) =
                     (case beforeRequest env of
                        None \<Rightarrow> 1
                      | Some h \<Rightarrow> (case snd (h 1) of None \<Rightarrow> 1 | Some e \<Rightarrow> 0))))"
proof (cases "fetchFn env")
  case None
  then show ?thesis using assms
    by (simp add: requestWithRetry_def idle_def transportCalls_def)
next
  case (Some f)
  let ?s = "composeSignal env sig (case tmo of Some ms \<Rightarrow> Some ms | None \<Rightarrow> defaultTimeout env) (idle t)"
  have run: "requestWithRetry env sig tmo (Some p) t = attempts env f (Some p) (retries p + 1) 1 None ?s"
    using Some by (simp add: requestWithRetry_def Let_def)
  have "transportCalls (snd (attempts env f (Some p) (retries p + 1) 1 None ?s))
          \<le> transportCalls ?s + nat (retries p + 1 + 1 - 1)"
    by (rule transportCalls_attempts)
  then have bound: "int (transportCalls (snd (requestWithRetry env sig tmo (Some p) t))) \<le> retries p + 1"
    using assms by (simp add: run composeSignal_counts)
  have single: "attemptsStarted (snd (requestWithRetry env sig tmo (Some p) t)) = 1
      \<and> transportCalls (snd (requestWithRetry env sig tmo (Some p) t)) =
          (case beforeRequest env of
             None \<Rightarrow> 1 | Some h \<Rightarrow> (case snd (h 1) of None \<Rightarrow> 1 | Some e \<Rightarrow> 0))"
    if "retries p = 0"
    using attempts_single [of "Some p" "retries p + 1" 1 env f None ?s] that
    by (simp add: run composeSignal_counts runHook_first split: option.splits)
  show ?thesis using bound single Some by auto
qed

theorem transport_invocations_bounded_witness:
  "0 \<le> retries oneRetry \<and> 0 \<le> retries noRetries \<and> retries noRetries = 0
   \<and> fetchFn always503 \<noteq> None
   \<and> transportCalls (snd (requestWithRetry always503 None None (Some oneRetry) 0)) = 2
   \<and> int (transportCalls (snd (requestWithRetry always503 None None (Some oneRetry) 0)))
       \<le> retries oneRetry + 1
   \<and> attemptsStarted (snd (requestWithRetry always503 None None (Some noRetries) 0)) = 1
   \<and> transportCalls (snd (requestWithRetry always503 None None (Some noRetries) 0)) = 1"
  using transport_invocations_bounded [of oneRetry always503 None None 0]
    transport_invocations_bounded [of noRetries always503 None None 0]
  by (simp add: run_defs scenario_defs)

section \<open>Method gating\<close>

lemma not_member_if_not_memberIgnoringCase:
  "\<not> memberIgnoringCase env m ms \<Longrightarrow> m \<notin> set ms"
  by (auto simp: memberIgnoringCase_def)

lemma asciiUpperCase_examples:
  "asciiUpperCase ''get'' = ''GET''" "asciiUpperCase ''GET'' = ''GET''"
  "asciiUpperCase ''post'' = ''POST''" "asciiUpperCase ''POST'' = ''POST''"
  by code_simp+

lemma toUpperCase_always503 [simp]: "toUpperCase always503 = asciiUpperCase"
  by (simp add: always503_def plainEnv_def)

lemma defaultRetry_always503 [simp]: "defaultRetry always503 = None"
  by (simp add: always503_def plainEnv_def)

text \<open>
  C6, as the claim states it, fails: with the retry option \<open>{ methods: [] }\<close> the method
  \<open>POST\<close> is not a member of the policy's methods, yet \<open>resolveRetry\<close> returns the
  policy (an empty list restricts nothing), and a request answered with 503 is attempted
  three times.
\<close>

theorem empty_methods_retry_every_method:
  "\<not> memberIgnoringCase always503 (normalizeMethod always503 (Some ''POST''))
        (methods (retryBase emptyMethods))
   \<and> resolveRetry always503 (Some ''POST'') (Some emptyMethods) = Some (retryBase emptyMethods)
   \<and> status unavailable \<in> set (statusCodes (retryBase emptyMethods))
   \<and> attemptsStarted
        (snd (requestWithRetry always503 None None
               (resolveRetry always503 (Some ''POST'') (Some emptyMethods)) 0)) = 3"
proof -
  have m: "methods (retryBase emptyMethods) = []" by (simp add: emptyMethods_def spread_def)
  have r: "resolveRetry always503 (Some ''POST'') (Some emptyMethods) = Some (retryBase emptyMethods)"
    by (simp add: resolveRetry_def retrySource_def m) (simp add: emptyMethods_def)
  have b: "retryBase emptyMethods = DEFAULT_RETRY\<lparr>methods := []\<rparr>"
    by (simp add: emptyMethods_def spread_def DEFAULT_RETRY_def)
  have n: "attemptsStarted
        (snd (requestWithRetry always503 None None (Some (retryBase emptyMethods)) 0)) = 3"
    unfolding b by (simp add: run_defs scenario_defs exactAt_def)
  show ?thesis
    unfolding r using n by (simp add: m memberIgnoringCase_def) (simp add: b DEFAULT_RETRY_def unavailable_def)
qed

text \<open>
  C6, amended: when the policy's list of methods is not empty and the resolved method is
  not a member of it under case-insensitive comparison, \<open>resolveRetry\<close> returns no
  policy, and the request makes exactly one attempt (with at most one transport
  invocation), whatever the status of the response. An empty list excludes no method:
  \<open>resolveRetry\<close> returns the policy for every method.
\<close>

theorem excluded_method_single_attempt:
  assumes src: "retrySource (defaultRetry env) reqRetry = Some source" and tr: "truthy source"
  shows "(methods (retryBase source) \<noteq> []
          \<and> \<not> memberIgnoringCase env (normalizeMethod env method) (methods (retryBase source))
          \<longrightarrow> resolveRetry env method reqRetry = None
              \<and> (fetchFn env \<noteq> None
                   \<longrightarrow> attemptsStarted
                         (snd (requestWithRetry env sig tmo (resolveRetry env method reqRetry) t)) = 1
                       \<and> transportCalls
                           (snd (requestWithRetry env sig tmo (resolveRetry env method reqRetry) t))
                         \<le> 1))
       \<and> (methods (retryBase source) = []
          \<longrightarrow> resolveRetry env method reqRetry = Some (retryBase source))"
proof (intro conjI impI)
  assume ex: "methods (retryBase source) \<noteq> []
     \<and> \<not> memberIgnoringCase env (normalizeMethod env method) (methods (retryBase source))"
  then show none: "resolveRetry env method reqRetry = None"
    using src tr not_member_if_not_memberIgnoringCase [of env "normalizeMethod env method"]
    by (simp add: resolveRetry_def Let_def)
  assume "fetchFn env \<noteq> None"
  then obtain f where f: "fetchFn env = Some f" by auto
  let ?s = "composeSignal env sig (case tmo of Some ms \<Rightarrow> Some ms | None \<Rightarrow> defaultTimeout env) (idle t)"
  have run: "requestWithRetry env sig tmo None t = attempts env f None 1 1 None ?s"
    using f by (simp add: requestWithRetry_def Let_def)
  show "attemptsStarted
          (snd (requestWithRetry env sig tmo (resolveRetry env method reqRetry) t)) = 1"
    using attempts_single [of None 1 1 env f None ?s]
    by (simp add: none run composeSignal_counts)
  show "transportCalls
          (snd (requestWithRetry env sig tmo (resolveRetry env method reqRetry) t)) \<le> 1"
    using attempts_single [of None 1 1 env f None ?s]
    by (simp add: none run composeSignal_counts)
next
  assume "methods (retryBase source) = []"
  then show "resolveRetry env method reqRetry = Some (retryBase source)"
    using src tr by (simp add: resolveRetry_def Let_def)
qed

theorem excluded_method_single_attempt_witness:
  "retrySource (defaultRetry always503) (Some retryGetOnly) = Some retryGetOnly
   \<and> truthy retryGetOnly
   \<and> methods (retryBase retryGetOnly) = [''GET'']
   \<and> \<not> memberIgnoringCase always503 (normalizeMethod always503 (Some ''post''))
          (methods (retryBase retryGetOnly))
   \<and> status unavailable \<in> set (statusCodes (retryBase retryGetOnly))
   \<and> fetchFn always503 \<noteq> None
   \<and> resolveRetry always503 (Some ''post'') (Some retryGetOnly) = None
   \<and> attemptsStarted
        (snd (requestWithRetry always503 None None
               (resolveRetry always503 (Some ''post'') (Some retryGetOnly)) 0)) = 1
   \<and> retrySource (defaultRetry always503) (Some emptyMethods) = Some emptyMethods
   \<and> truthy emptyMethods
   \<and> methods (retryBase emptyMethods) = []
   \<and> resolveRetry always503 (Some ''post'') (Some emptyMethods) = Some (retryBase emptyMethods)"
proof -
  have h1: "retrySource (defaultRetry always503) (Some retryGetOnly) = Some retryGetOnly"
    "retrySource (defaultRetry always503) (Some emptyMethods) = Some emptyMethods"
    by (simp_all add: retrySource_def)
  have h2: "truthy retryGetOnly" "truthy emptyMethods"
    by (simp_all add: retryGetOnly_def emptyMethods_def)
  have h3: "methods (retryBase retryGetOnly) = [''GET'']" "methods (retryBase emptyMethods) = []"
    by (simp_all add: retryGetOnly_def emptyMethods_def spread_def)
  have h4: "\<not> memberIgnoringCase always503 (normalizeMethod always503 (Some ''post''))
              (methods (retryBase retryGetOnly))"
    by (simp add: h3 memberIgnoringCase_def normalizeMethod_def asciiUpperCase_examples)
  have h5: "fetchFn always503 \<noteq> None"
    by (simp add: always503_def)
  have h6: "status unavailable \<in> set (statusCodes (retryBase retryGetOnly))"
    by (simp add: retryGetOnly_def spread_def DEFAULT_RETRY_def unavailable_def)
  show ?thesis
    using excluded_method_single_attempt [OF h1(1) h2(1), of "Some ''post''" None None 0]
      excluded_method_single_attempt [OF h1(2) h2(2), of "Some ''post''" None None 0]
      h1 h2 h3 h4 h5 h6
    by auto
qed

text \<open>
  The code upper-cases the method and compares it with the entries as they are written:
  here the entry \<open>get\<close> does not make \<open>GET\<close> retryable.
\<close>

lemma lower_case_entry_excludes_its_method:
  "memberIgnoringCase always503 (normalizeMethod always503 (Some ''get'')) [''get'']
   \<and> resolveRetry always503 (Some ''get'')
         (Some (RetryObject
            \<lparr>opt_retries = None, opt_statusCodes = None, opt_methods = Some [''get''],
             opt_factor = None, opt_minDelay = None, opt_maxDelay = None, opt_jitter = None,
             opt_respectRetryAfterHeader = None\<rparr>)) = None"
  by (simp add: memberIgnoringCase_def normalizeMethod_def asciiUpperCase_examples
      resolveRetry_def retrySource_def spread_def DEFAULT_RETRY_def)
section \<open>Failing hooks\<close>

lemma hookThrows_try_block:
  assumes "hookThrows env f k s = Some (e, s1)"
  shows "try_block env f pol tot k s = Throw e s1"
  using assms
  by (auto simp: hookThrows_def try_block_def split: prod.splits option.splits sum.splits)

lemma hookThrows_transportCalls:
  assumes "hookThrows env f k s = Some (e, s1)"
  shows "transportCalls s1 \<le> Suc (transportCalls s)"
  using assms
  by (auto simp: hookThrows_def split: prod.splits option.splits sum.splits
      dest!: transportCalls_runHook transportCalls_callFetch)

text \<open>
  C2, as the claim states it, fails: the hooks run inside the \<open>try\<close> block, so a
  \<open>beforeRequest\<close> hook that throws in the first attempt, under a policy with one retry,
  is followed by a backoff wait and a second attempt, whose transport invocation
  succeeds.
\<close>

theorem hook_failure_retried:
  "beforeRequest hookFailsOnce \<noteq> None
   \<and> hookThrows hookFailsOnce (\<lambda>k. (10, Inr okResponse)) 1 (idle 0) = Some (hookError, idle 0)
   \<and> fst (requestWithRetry hookFailsOnce None None (Some oneRetry) 0) = Inr okResponse
   \<and> attemptsStarted (snd (requestWithRetry hookFailsOnce None None (Some oneRetry) 0)) = 2
   \<and> transportCalls (snd (requestWithRetry hookFailsOnce None None (Some oneRetry) 0)) = 1"
  by (simp add: run_defs scenario_defs hookThrows_def)

text \<open>
  C2, amended: a hook failure in attempt \<open>k\<close> is handled as the failure of that
  attempt. It is propagated at once, the function ending in the state the hook left with
  only \<open>cleanup\<close> run (so with no further transport invocation), when it is an abort
  error, when no policy is active or when no attempt remains; otherwise the orchestrator
  waits the backoff delay and, unless that wait is rejected, goes on with attempt
  \<open>k + 1\<close>.
\<close>

theorem hook_failure_is_attempt_failure:
  assumes h: "hookThrows env f k (logEvent (AttemptStart k (now s)) s) = Some (e, s1)"
    and k: "k \<le> tot"
  shows "attempts env f pol tot k le s =
           (if isAbortError e \<or> pol = None \<or> tot \<le> k then (Inl e, cleanup s1)
            else
              (case sleep env k (backoffDelay env (random env k) k (the pol)) s1 of
                 (Some a, s2) \<Rightarrow> (Inl a, s2)
               | (None, s2) \<Rightarrow> attempts env f pol tot (k + 1) (Some e) s2))
         \<and> transportCalls (cleanup s1) \<le> Suc (transportCalls s)"
proof -
  have "transportCalls (cleanup s1) \<le> Suc (transportCalls s)"
    using hookThrows_transportCalls [OF h] by simp
  moreover have "attempts env f pol tot k le s =
           (if isAbortError e \<or> pol = None \<or> tot \<le> k then (Inl e, cleanup s1)
            else
              (case sleep env k (backoffDelay env (random env k) k (the pol)) s1 of
                 (Some a, s2) \<Rightarrow> (Inl a, s2)
               | (None, s2) \<Rightarrow> attempts env f pol tot (k + 1) (Some e) s2))"
    using k hookThrows_try_block [OF h, of pol tot]
    by (cases pol) (auto simp: attempts_step attempt_body_def split: prod.splits option.splits)
  ultimately show ?thesis by simp
qed

theorem hook_failure_is_attempt_failure_witness:
  "hookThrows hookFailsOnce (\<lambda>k. (10, Inr okResponse)) 1 (logEvent (AttemptStart 1 (now (idle 0))) (idle 0))
     = Some (hookError, logEvent (AttemptStart 1 0) (idle 0))
   \<and> \<not> isAbortError hookError
   \<and> attempts hookFailsOnce (\<lambda>k. (10, Inr okResponse)) None 1 1 None (idle 0)
     = (Inl hookError, cleanup (logEvent (AttemptStart 1 0) (idle 0)))
   \<and> transportCalls (cleanup (logEvent (AttemptStart 1 0) (idle 0))) = 0
   \<and> attempts hookFailsOnce (\<lambda>k. (10, Inr okResponse)) (Some oneRetry) 1 1 None (idle 0)
     = (Inl hookError, cleanup (logEvent (AttemptStart 1 0) (idle 0)))
   \<and> fst (attempts hookFailsOnce (\<lambda>k. (10, Inr okResponse)) (Some oneRetry) 2 1 None (idle 0))
     = Inr okResponse"
proof -
  have h: "hookThrows hookFailsOnce (\<lambda>k. (10, Inr okResponse)) 1
             (logEvent (AttemptStart 1 (now (idle 0))) (idle 0))
           = Some (hookError, logEvent (AttemptStart 1 0) (idle 0))"
    by (simp add: hookThrows_def run_defs scenario_defs logEvent_def)
  have k: "(1::int) \<le> 1" and k2: "(1::int) \<le> 2" by simp_all
  have na: "\<not> isAbortError hookError" by (simp add: isAbortError_def hookError_def)
  have 1: "attempts hookFailsOnce (\<lambda>k. (10, Inr okResponse)) None 1 1 None (idle 0)
     = (Inl hookError, cleanup (logEvent (AttemptStart 1 0) (idle 0)))"
    using hook_failure_is_attempt_failure [OF h k, of None None] by simp
  have 2: "attempts hookFailsOnce (\<lambda>k. (10, Inr okResponse)) (Some oneRetry) 1 1 None (idle 0)
     = (Inl hookError, cleanup (logEvent (AttemptStart 1 0) (idle 0)))"
    using hook_failure_is_attempt_failure [OF h k, of "Some oneRetry" None] by simp
  have 3: "fst (attempts hookFailsOnce (\<lambda>k. (10, Inr okResponse)) (Some oneRetry) 2 1 None (idle 0))
     = Inr okResponse"
    using hook_failure_is_attempt_failure [OF h k2, of "Some oneRetry" None] na
    by (simp add: run_defs scenario_defs logEvent_def)
  show ?thesis using h na 1 2 3 by (simp add: transportCalls_def idle_def)
qed

section \<open>The server's retry hint\<close>

lemma await_now_bounds:
  "now s \<le> now (await w k d s) \<and> now (await w k d s) \<le> now s + max 0 d"
  by (auto simp: await_def nextDue_def advance_fields Let_def min_def max_def split: option.splits)

lemma await_unfired_now:
  assumes "fired (await w k d s) = None"
  shows "now (await w k d s) = now s + max 0 d"
  using assms
  by (auto simp: await_def nextDue_def advance_fields strikes_def timerDue_def callerDue_def
      Let_def min_def max_def split: option.splits if_splits)

text \<open>
  A wait that is resolved has lasted as long as the platform's timer runs for the delay
  asked; one that is rejected has lasted no longer.
\<close>

lemma sleep_resolved_duration:
  "sleep env k ms x = (None, y) \<Longrightarrow> now y = now x + max 0 (timerDelay env ms)"
  using await_unfired_now [of AwaitSleep k "timerDelay env ms" "logEvent (SleepCall k ms (now x)) x"]
  by (auto simp: sleep_def Let_def split: if_splits)

lemma sleep_rejected_duration:
  "sleep env k ms x = (Some e, y) \<Longrightarrow> now x \<le> now y \<and> now y \<le> now x + max 0 (timerDelay env ms)"
  using await_now_bounds [of "logEvent (SleepCall k ms (now x)) x" AwaitSleep k "timerDelay env ms"]
  by (auto simp: sleep_def Let_def split: if_splits)

lemma sleep_logs: "SleepCall k ms (now x) \<in> set (trace (snd (sleep env k ms x)))"
  by (simp add: sleep_def await_def Let_def advance_fields split: option.splits)

text \<open>
  What \<open>parseRetryAfter\<close> computes from a header that \<open>Number\<close> reads, whatever the
  rounding: the header \<open>Infinity\<close> gives an infinite hint.
\<close>

lemma parseRetryAfter_number:
  assumes "retry_after res = Some ra" "ra \<noteq> []" "toNumber env ra \<noteq> NaN"
  shows "parseRetryAfter env t res = Some (jsMax (Finite 0) (jsMul env (toNumber env ra) (Finite 1000)))"
  using assms by (simp add: parseRetryAfter_def)

lemma parseRetryAfter_infinite:
  assumes "retry_after res = Some ra" "ra \<noteq> []" "toNumber env ra = PlusInfinity"
  shows "parseRetryAfter env t res = Some PlusInfinity"
  using assms by (simp add: parseRetryAfter_def jsMul_def jsMax_def)

text \<open>
  C8, as the claim states it, fails: the policy respects the header, the 503 response
  carries a hint that parses to 7000 ms, its status is retryable and an attempt remains,
  but the \<open>afterResponse\<close> hook throws on the response; the orchestrator then waits the
  computed backoff of 225 ms, and the second attempt starts 235 ms after the call.
\<close>

theorem hint_unused_when_afterResponse_throws:
  "respectRetryAfterHeader (DEFAULT_RETRY\<lparr>retries := 1\<rparr>) \<and> \<not> ok retryIn7
   \<and> status retryIn7 \<in> set (statusCodes (DEFAULT_RETRY\<lparr>retries := 1\<rparr>))
   \<and> parseRetryAfter responseRejected 10 retryIn7 = Some (Finite 7000)
   \<and> backoffDelay responseRejected (random responseRejected 1) 1 (DEFAULT_RETRY\<lparr>retries := 1\<rparr>)
       = Finite 225
   \<and> trace (snd (requestWithRetry responseRejected None None (Some (DEFAULT_RETRY\<lparr>retries := 1\<rparr>)) 0))
       = [Cleanup, TransportCall 2 235, AttemptStart 2 235, SleepCall 1 (Finite 225) 10,
          TransportCall 1 0, AttemptStart 1 0]
   \<and> fst (requestWithRetry responseRejected None None (Some (DEFAULT_RETRY\<lparr>retries := 1\<rparr>)) 0)
       = Inl hookError"
  by (simp add: run_defs scenario_defs)

text \<open>
  C8, amended. \<open>parseRetryAfter\<close> returns \<open>undefined\<close> for an absent or empty header, the
  seconds times 1000 floored at 0 for a header that \<open>Number\<close> reads (an integer number of
  seconds among them), the distance from now floored at 0 for one that only \<open>Date\<close>
  reads, where these are computed exactly, and \<open>undefined\<close> for a header that neither
  reads. And when the policy respects the header, both hooks of the attempt return, the
  response is not ok, its status is retryable, attempts remain and the hint parses, the
  attempt's wait is \<open>sleep\<close> called with the hint, not with the computed backoff: a wait
  that is resolved has lasted as long as the platform's timer runs for the hint, which is
  the hint itself where the platform honours the delay asked; a wait that is rejected
  was cancelled by the signal, no later than that.
\<close>

theorem retry_after_hint:
  "(retry_after res = None \<or> retry_after res = Some [] \<longrightarrow> parseRetryAfter env t res = None)
   \<and> (\<forall>ra secs. retry_after res = Some ra \<and> ra \<noteq> [] \<and> toNumber env ra = Finite secs
                  \<and> exactAt env (secs * 1000)
         \<longrightarrow> parseRetryAfter env t res = Some (Finite (max 0 (secs * 1000))))
   \<and> (\<forall>ra date. retry_after res = Some ra \<and> ra \<noteq> [] \<and> toNumber env ra = NaN
                  \<and> dateParse env ra = Some date \<and> exactAt env (date - t)
         \<longrightarrow> parseRetryAfter env t res = Some (Finite (max 0 (date - t))))
   \<and> (\<forall>ra. retry_after res = Some ra \<and> toNumber env ra = NaN \<and> dateParse env ra = None
         \<longrightarrow> parseRetryAfter env t res = None)
   \<and> (\<forall>p k tot s s1 s2 s3 hint.
         runHook (beforeRequest env) k s = (None, s1) \<and> callFetch env f k s1 = (Inr res, s2)
         \<and> runHook (afterResponse env) k s2 = (None, s3)
         \<and> respectRetryAfterHeader p \<and> \<not> ok res \<and> status res \<in> set (statusCodes p) \<and> k < tot
         \<and> parseRetryAfter env (now s3) res = Some hint
         \<longrightarrow> try_block env f (Some p) tot k s =
               (case sleep env k hint s3 of (Some e, s4) \<Rightarrow> Throw e s4 | (None, s4) \<Rightarrow> Continue s4)
             \<and> SleepCall k hint (now s3) \<in> set (trace (try_state (try_block env f (Some p) tot k s)))
             \<and> (\<forall>s4. try_block env f (Some p) tot k s = Continue s4
                   \<longrightarrow> now s4 = now s3 + max 0 (timerDelay env hint)
                       \<and> (\<forall>h. hint = Finite h \<and> 0 \<le> h \<and> timerDelay env hint = h
                             \<longrightarrow> now s4 = now s3 + h))
             \<and> (\<forall>e s4. try_block env f (Some p) tot k s = Throw e s4
                   \<longrightarrow> e = AbortedDOMException \<and> fired s4 \<noteq> None
                       \<and> now s4 \<le> now s3 + max 0 (timerDelay env hint)))"
proof -
  have tb: "try_block env f (Some p) tot k s =
               (case sleep env k hint s3 of (Some e, s4) \<Rightarrow> Throw e s4 | (None, s4) \<Rightarrow> Continue s4)"
    if "runHook (beforeRequest env) k s = (None, s1) \<and> callFetch env f k s1 = (Inr res, s2)
       \<and> runHook (afterResponse env) k s2 = (None, s3)
       \<and> respectRetryAfterHeader p \<and> \<not> ok res \<and> status res \<in> set (statusCodes p) \<and> k < tot
       \<and> parseRetryAfter env (now s3) res = Some hint"
    for p k tot s s1 s2 s3 hint
    using that by (simp add: try_block_def Let_def)
  have lg: "SleepCall k hint (now s3) \<in> set (trace (try_state (try_block env f (Some p) tot k s)))"
    if "try_block env f (Some p) tot k s =
               (case sleep env k hint s3 of (Some e, s4) \<Rightarrow> Throw e s4 | (None, s4) \<Rightarrow> Continue s4)"
    for p k tot s s3 hint
    using that sleep_logs [of k hint s3 env]
    by (cases "sleep env k hint s3") (auto split: option.splits)
  have rs: "now s4 = now s3 + max 0 (timerDelay env hint)
            \<and> (\<forall>h. hint = Finite h \<and> 0 \<le> h \<and> timerDelay env hint = h \<longrightarrow> now s4 = now s3 + h)"
    if "try_block env f (Some p) tot k s =
               (case sleep env k hint s3 of (Some e, s4) \<Rightarrow> Throw e s4 | (None, s4) \<Rightarrow> Continue s4)"
      "try_block env f (Some p) tot k s = Continue s4"
    for p k tot s s3 s4 hint
    using that sleep_resolved_duration [of env k hint s3 s4]
    by (cases "sleep env k hint s3") (auto split: option.splits)
  have rj: "e = AbortedDOMException \<and> fired s4 \<noteq> None
            \<and> now s4 \<le> now s3 + max 0 (timerDelay env hint)"
    if "try_block env f (Some p) tot k s =
               (case sleep env k hint s3 of (Some e, s4) \<Rightarrow> Throw e s4 | (None, s4) \<Rightarrow> Continue s4)"
      "try_block env f (Some p) tot k s = Throw e s4"
    for p k tot s s3 s4 hint e
    using that sleep_rejected_duration [of env k hint s3 e s4] sleep_rejected [of env k hint s3 e s4]
    by (cases "sleep env k hint s3") (auto split: option.splits)
  have parse: "(retry_after res = None \<or> retry_after res = Some [] \<longrightarrow> parseRetryAfter env t res = None)
   \<and> (\<forall>ra secs. retry_after res = Some ra \<and> ra \<noteq> [] \<and> toNumber env ra = Finite secs
                  \<and> exactAt env (secs * 1000)
         \<longrightarrow> parseRetryAfter env t res = Some (Finite (max 0 (secs * 1000))))
   \<and> (\<forall>ra date. retry_after res = Some ra \<and> ra \<noteq> [] \<and> toNumber env ra = NaN
                  \<and> dateParse env ra = Some date \<and> exactAt env (date - t)
         \<longrightarrow> parseRetryAfter env t res = Some (Finite (max 0 (date - t))))
   \<and> (\<forall>ra. retry_after res = Some ra \<and> toNumber env ra = NaN \<and> dateParse env ra = None
         \<longrightarrow> parseRetryAfter env t res = None)"
    by (auto simp: parseRetryAfter_def exactAt_def)
  show ?thesis
  proof (intro conjI allI impI, goal_cases)
    case 1 then show ?case using parse by blast
  next
    case 2 then show ?case using parse by blast
  next
    case 3 then show ?case using parse by blast
  next
    case 4 then show ?case using parse by blast
  next
    case 5 then show ?case by (rule tb)
  next
    case 6 then show ?case by (intro lg tb)
  next
    case 7 then show ?case using rs [OF tb [OF 7(1)] 7(2)] by blast
  next
    case 8 then show ?case using rs [OF tb [OF 8(1)] 8(2)] 8(3) by blast
  next
    case 9 then show ?case using rj [OF tb [OF 9(1)] 9(2)] by blast
  next
    case 10 then show ?case using rj [OF tb [OF 10(1)] 10(2)] by blast
  next
    case 11 then show ?case using rj [OF tb [OF 11(1)] 11(2)] by blast
  qed
qed

theorem retry_after_hint_witness:
  "parseRetryAfter plainEnv 0 okResponse = None
   \<and> exactAt plainEnv (7 * 1000)
   \<and> parseRetryAfter plainEnv 0 retryIn7 = Some (Finite 7000)
   \<and> exactAt datedEnv (1445412480000 - 1445412470000)
   \<and> parseRetryAfter datedEnv 1445412470000 retryAtDate = Some (Finite 10000)
   \<and> parseRetryAfter plainEnv 0 (retryIn7\<lparr>retry_after := Some ''soon''\<rparr>) = None
   \<and> backoffDelay busyEnv 0 1 DEFAULT_RETRY = Finite 225
   \<and> timerDelay busyEnv (Finite 7000) = 7000
   \<and> (\<exists>s4. try_block busyEnv (\<lambda>k. (10, Inr retryIn7)) (Some DEFAULT_RETRY) 3 1 (idle 0) = Continue s4
          \<and> now s4 = 7010)
   \<and> SleepCall 1 (Finite 7000) 10
       \<in> set (trace (try_state (try_block busyEnv (\<lambda>k. (10, Inr retryIn7)) (Some DEFAULT_RETRY) 3 1 (idle 0))))
   \<and> AttemptStart 2 7010
       \<in> set (trace (snd (requestWithRetry busyEnv None None (Some (DEFAULT_RETRY\<lparr>retries := 1\<rparr>)) 0)))"
proof -
  have a: "retry_after okResponse = None" by (simp add: okResponse_def)
  have b: "retry_after retryIn7 = Some ''7'' \<and> ''7'' \<noteq> [] \<and> toNumber plainEnv ''7'' = Finite 7
      \<and> exactAt plainEnv (7 * 1000)"
    by (simp add: retryIn7_def plainEnv_def exactAt_def)
  have c: "retry_after retryAtDate = Some ''Wed, 21 Oct 2015 07:28:00 GMT''
      \<and> ''Wed, 21 Oct 2015 07:28:00 GMT'' \<noteq> []
      \<and> toNumber datedEnv ''Wed, 21 Oct 2015 07:28:00 GMT'' = NaN
      \<and> dateParse datedEnv ''Wed, 21 Oct 2015 07:28:00 GMT'' = Some 1445412480000
      \<and> exactAt datedEnv (1445412480000 - 1445412470000)"
    by (simp add: retryAtDate_def datedEnv_def plainEnv_def exactAt_def)
  have d: "retry_after (retryIn7\<lparr>retry_after := Some ''soon''\<rparr>) = Some ''soon''
      \<and> toNumber plainEnv ''soon'' = NaN \<and> dateParse plainEnv ''soon'' = None"
    by (simp add: plainEnv_def)
  let ?f = "\<lambda>k::int. (10::real, Inr retryIn7 :: js_error + response)"
  let ?s2 = "advance AwaitTransport 1 10 (logEvent (TransportCall 1 0) (idle 0))"
  have e: "runHook (beforeRequest busyEnv) 1 (idle 0) = (None, idle 0)
      \<and> callFetch busyEnv ?f 1 (idle 0) = (Inr retryIn7, ?s2)
      \<and> runHook (afterResponse busyEnv) 1 ?s2 = (None, ?s2)
      \<and> respectRetryAfterHeader DEFAULT_RETRY \<and> \<not> ok retryIn7
      \<and> status retryIn7 \<in> set (statusCodes DEFAULT_RETRY) \<and> (1::int) < 3
      \<and> parseRetryAfter busyEnv (now ?s2) retryIn7 = Some (Finite 7000)"
    by (simp add: run_defs busyEnv_def plainEnv_def retryIn7_def)
  have n2: "now ?s2 = 10" by (simp add: advance_fields idle_def)
  have td: "timerDelay busyEnv (Finite 7000) = 7000"
    by (simp add: busyEnv_def plainEnv_def nodeTimerDelay_def)
  have bo: "backoffDelay busyEnv 0 1 DEFAULT_RETRY = Finite 225"
    by (simp add: backoffDelay_def DEFAULT_RETRY_def busyEnv_def plainEnv_def examplePow_def)
  have cont: "\<exists>s4. try_block busyEnv ?f (Some DEFAULT_RETRY) 3 1 (idle 0) = Continue s4"
    by (simp add: run_defs busyEnv_def plainEnv_def retryIn7_def)
  have run: "AttemptStart 2 7010
       \<in> set (trace (snd (requestWithRetry busyEnv None None (Some (DEFAULT_RETRY\<lparr>retries := 1\<rparr>)) 0)))"
    by (simp add: run_defs scenario_defs)
  from retry_after_hint [of okResponse plainEnv 0] a
  have 1: "parseRetryAfter plainEnv 0 okResponse = None" by blast
  from retry_after_hint [of retryIn7 plainEnv 0] b
  have 2: "parseRetryAfter plainEnv 0 retryIn7 = Some (Finite 7000)" by fastforce
  from retry_after_hint [of retryAtDate datedEnv 1445412470000] c
  have 3: "parseRetryAfter datedEnv 1445412470000 retryAtDate = Some (Finite 10000)" by fastforce
  from retry_after_hint [of "retryIn7\<lparr>retry_after := Some ''soon''\<rparr>" plainEnv 0] d
  have 4: "parseRetryAfter plainEnv 0 (retryIn7\<lparr>retry_after := Some ''soon''\<rparr>) = None" by blast
  from retry_after_hint [of retryIn7 busyEnv 0 ?f] e
  have 5: "SleepCall 1 (Finite 7000) (now ?s2)
       \<in> set (trace (try_state (try_block busyEnv ?f (Some DEFAULT_RETRY) 3 1 (idle 0))))"
    and 6: "\<forall>s4. try_block busyEnv ?f (Some DEFAULT_RETRY) 3 1 (idle 0) = Continue s4
       \<longrightarrow> (\<forall>h. Finite 7000 = Finite h \<and> 0 \<le> h \<and> timerDelay busyEnv (Finite 7000) = h
             \<longrightarrow> now s4 = now ?s2 + h)"
    by blast+
  from cont 6 td n2
  have 7: "\<exists>s4. try_block busyEnv ?f (Some DEFAULT_RETRY) 3 1 (idle 0) = Continue s4 \<and> now s4 = 7010"
    by fastforce
  from 1 2 3 4 5 7 bo td run b c n2 show ?thesis by simp
qed
section \<open>Releasing the cancellation resources\<close>

text \<open>
  C1: the code misses one exit path. A network failure in the first attempt sends the
  loop into the \<open>catch\<close> block's backoff wait; when the caller aborts during that wait,
  the rejection of \<open>sleep\<close> leaves the function without \<open>cleanup\<close>: the listener stays
  on the caller's signal and the timeout timer stays pending. The same abort during the
  wait of the \<open>try\<close> block (after a 503) is caught and released.
\<close>

theorem backoff_abort_skips_cleanup:
  "fst (requestWithRetry failsOnce (Some abortsAt100) (Some 5000) (Some oneRetry) 0)
     = Inl AbortedDOMException
   \<and> cleanups (snd (requestWithRetry failsOnce (Some abortsAt100) (Some 5000) (Some oneRetry) 0)) = 0
   \<and> listener (snd (requestWithRetry failsOnce (Some abortsAt100) (Some 5000) (Some oneRetry) 0))
   \<and> timer (snd (requestWithRetry failsOnce (Some abortsAt100) (Some 5000) (Some oneRetry) 0))
       = Some 5000
   \<and> cleanups (snd (requestWithRetry always503 (Some abortsAt100) (Some 5000) (Some oneRetry) 0)) = 1"
  by (simp add: run_defs scenario_defs abortsAt100_def)

text \<open>
  Releasing twice is releasing once, and every exit but the rejected wait of the
  \<open>catch\<close> block has run \<open>cleanup\<close>.
\<close>

lemma cleanup_idempotent:
  "listener (cleanup (cleanup s)) = listener (cleanup s)
   \<and> timer (cleanup (cleanup s)) = timer (cleanup s)
   \<and> fired (cleanup (cleanup s)) = fired (cleanup s)"
  by simp

lemma attempt_body_released:
  assumes "attempt_body env f pol tot k le s = Done r s'"
  shows "(\<not> listener s' \<and> timer s' = None \<and> cleanups s' > 0) \<or> r = Inl AbortedDOMException"
proof (cases rule: attempt_body_cases [of env f pol tot k s le])
  case (returned res s1)
  then show ?thesis
    using assms by (cases rule: try_block_cases [of env k s f pol tot]) (auto simp: cleanups_def)
next
  case (backoff_rejected e s1 p a s2)
  then show ?thesis using assms sleep_rejected by auto
qed (use assms in \<open>auto simp: cleanups_def\<close>)

lemma attempts_released:
  "attempts env f pol tot k le s = (r, s') \<Longrightarrow>
     (\<not> listener s' \<and> timer s' = None \<and> cleanups s' > 0) \<or> r = Inl AbortedDOMException"
proof (induction env f pol tot k le s rule: attempts.induct)
  case (1 env f pol tot k le s)
  show ?case
  proof (cases "k \<le> tot")
    case False
    with "1.prems" show ?thesis by (auto simp: attempts_exit cleanups_def)
  next
    case True
    let ?s0 = "logEvent (AttemptStart k (now s)) s"
    show ?thesis
    proof (cases "attempt_body env f pol tot k le ?s0")
      case (Done r0 s0)
      with True "1.prems" have "r0 = r" "s0 = s'" by (simp_all add: attempts_step)
      with Done attempt_body_released [of env f pol tot k le ?s0 r s'] show ?thesis by simp
    next
      case (Next e s1)
      with True "1.prems" have "attempts env f pol tot (k + 1) e s1 = (r, s')"
        by (simp add: attempts_step)
      from "1.IH" [OF True Next this] show ?thesis .
    qed
  qed
qed

section \<open>Mirroring the caller's signal\<close>

text \<open>
  C9: \<open>composeSignal\<close> only listens for a later \<open>abort\<close> event and never reads
  \<open>baseSignal.aborted\<close>. For a caller signal that is aborted already the event is past:
  the composed signal is not aborted and never will be, and the request runs to its
  response.
\<close>

theorem aborted_signal_not_mirrored:
  "abort_at abortedAt0 = Some 0
   \<and> fired (composeSignal plainEnv (Some abortedAt0) None (idle 5)) = None
   \<and> nextDue (composeSignal plainEnv (Some abortedAt0) None (idle 5)) = None
   \<and> fst (requestWithRetry plainEnv (Some abortedAt0) None None 5) = Inr okResponse
   \<and> fired (snd (requestWithRetry plainEnv (Some abortedAt0) None None 5)) = None
   \<and> transportCalls (snd (requestWithRetry plainEnv (Some abortedAt0) None None 5)) = 1"
  by (simp add: run_defs scenario_defs abortedAt0_def)

text \<open>
  A caller's abort that comes after the composition, before any timeout, does abort
  the composed signal, with the caller's reason.
\<close>

lemma composed_mirrors_later_abort:
  assumes "t0 < a" "a \<le> t"
    "case tm of None \<Rightarrow> True | Some ms \<Rightarrow> ms \<le> 0 \<or> a < timeoutExpiry env t0 ms"
  shows "fired (advance w k t (composeSignal env (Some \<lparr>abort_at = Some a, abort_reason = r\<rparr>) tm (idle t0)))
           = Some r"
  using assms
  by (auto simp: composeSignal_def idle_def advance_fields strikes_def timerDue_def callerDue_def
      Let_def split: option.splits)

section \<open>Cancellation\<close>

lemma attempt_body_next_unfired:
  assumes "attempt_body env f pol tot k le s = Next e s'"
  shows "fired s' = None"
proof (cases rule: attempt_body_cases [of env f pol tot k s le])
  case (continued s1)
  then show ?thesis
    using assms by (cases rule: try_block_cases [of env k s f pol tot]) (auto dest: sleep_resolved)
next
  case (backoff_resolved e s1 p s2)
  then show ?thesis using assms by (auto dest: sleep_resolved)
qed (use assms in auto)

lemma attempt_body_events:
  assumes "\<forall>rr w n. Fired rr w n \<in> set (trace s) \<longrightarrow> n = k"
    and "\<forall>m \<tau>. AttemptStart m \<tau> \<in> set (trace s) \<longrightarrow> m \<le> k"
  shows "(\<forall>rr w n. Fired rr w n \<in> set (trace (iter_state (attempt_body env f pol tot k le s))) \<longrightarrow> n = k)
       \<and> (\<forall>m \<tau>. AttemptStart m \<tau> \<in> set (trace (iter_state (attempt_body env f pol tot k le s))) \<longrightarrow> m \<le> k)"
  by (rule attempt_body_invariant
        [of "\<lambda>x. (\<forall>rr w n. Fired rr w n \<in> set (trace x) \<longrightarrow> n = k)
                 \<and> (\<forall>m \<tau>. AttemptStart m \<tau> \<in> set (trace x) \<longrightarrow> m \<le> k)" k])
     (use assms in \<open>auto dest!: advance_mem\<close>)

lemma attempt_body_next_quiet:
  assumes "\<forall>rr w n. Fired rr w n \<notin> set (trace s)"
    and "attempt_body env f pol tot k le s = Next e s'"
  shows "\<forall>rr w n. Fired rr w n \<notin> set (trace s')"
proof -
  have "fired s' = None \<longrightarrow> (\<forall>rr w n. Fired rr w n \<notin> set (trace s'))"
    by (rule attempt_body_next_invariant
          [of "\<lambda>x. fired x = None \<longrightarrow> (\<forall>rr w n. Fired rr w n \<notin> set (trace x))" k, OF _ _ _ _ assms(2)])
       (use assms(1) in \<open>auto simp: advance_fields split: option.splits\<close>)
  then show ?thesis using attempt_body_next_unfired [OF assms(2)] by simp
qed

lemma attempts_no_start_after_fired:
  assumes "attempts env f pol tot k le s = (r, s')"
    and "\<forall>rr w n. Fired rr w n \<notin> set (trace s)"
    and "\<forall>m \<tau>. AttemptStart m \<tau> \<in> set (trace s) \<longrightarrow> m < k"
    and "Fired rr w n \<in> set (trace s')" and "AttemptStart m \<tau> \<in> set (trace s')"
  shows "m \<le> n"
  using assms
proof (induction env f pol tot k le s rule: attempts.induct)
  case (1 env f pol tot k le s)
  show ?case
  proof (cases "k \<le> tot")
    case False
    with "1.prems" show ?thesis by (auto simp: attempts_exit)
  next
    case True
    let ?s0 = "logEvent (AttemptStart k (now s)) s"
    have q0: "\<forall>rr w n. Fired rr w n \<notin> set (trace ?s0)" using "1.prems"(2) by simp
    have a0: "\<forall>m \<tau>. AttemptStart m \<tau> \<in> set (trace ?s0) \<longrightarrow> m \<le> k"
      using "1.prems"(3) by auto
    note ev = attempt_body_events [of ?s0 k env f pol tot le]
    show ?thesis
    proof (cases "attempt_body env f pol tot k le ?s0")
      case (Done r0 s0)
      with True "1.prems"(1) have "s0 = s'" by (simp add: attempts_step)
      with Done ev q0 a0 have "n = k" "m \<le> k" using "1.prems"(4,5) by auto
      then show ?thesis by simp
    next
      case (Next e s1)
      with True "1.prems"(1) have run: "attempts env f pol tot (k + 1) e s1 = (r, s')"
        by (simp add: attempts_step)
      have q1: "\<forall>rr w n. Fired rr w n \<notin> set (trace s1)"
        by (rule attempt_body_next_quiet [OF q0 Next])
      have a1: "\<forall>m \<tau>. AttemptStart m \<tau> \<in> set (trace s1) \<longrightarrow> m < k + 1"
        using ev q0 a0 Next by auto
      from "1.IH" [OF True Next run q1 a1 "1.prems"(4,5)] show ?thesis .
    qed
  qed
qed

lemma try_block_fired:
  assumes q: "\<forall>rr w n. Fired rr w n \<notin> set (trace s)"
    and w: "w = AwaitSleep \<or> (w = AwaitTransport \<and> fetchObservesSignal env)"
  shows "(\<forall>res s'. try_block env f pol tot k s = Return res s' \<longrightarrow> Fired rr w n \<notin> set (trace s'))
       \<and> (\<forall>e s'. try_block env f pol tot k s = Throw e s' \<longrightarrow> Fired rr w n \<in> set (trace s')
            \<longrightarrow> isAbortError e \<or> e = rr)"
proof -
  have hook: "Fired rr w n \<notin> set (trace x')"
    if "runHook h k x = (out, x')" "Fired rr w n \<notin> set (trace x)" for h x out x'
    using runHook_fired [OF that(1), of rr w n] that(2) w by auto
  have fetch_ok: "Fired rr w n \<notin> set (trace x')"
    if "callFetch env f k x = (Inr res, x')" "Fired rr w n \<notin> set (trace x)" for x res x'
    using callFetch_fired [OF that(1), of rr w n] that(2) w by auto
  have fetch_err: "e = rr"
    if "callFetch env f k x = (Inl e, x')" "Fired rr w n \<notin> set (trace x)"
      "Fired rr w n \<in> set (trace x')" for x e x'
    using callFetch_fired [OF that(1), of rr w n] that(2,3) w by auto
  have q': "Fired rr w n \<notin> set (trace s)" using q by simp
  show ?thesis
  proof (cases rule: try_block_cases [of env k s f pol tot])
    case (before_throws e s1)
    then show ?thesis using hook [OF before_throws(1) q'] by simp
  next
    case (fetch_throws s1 e s2)
    then show ?thesis using fetch_err [OF fetch_throws(2) hook [OF fetch_throws(1) q']] by auto
  next
    case (after_throws s1 res s2 e s3)
    then show ?thesis
      using hook [OF after_throws(3) fetch_ok [OF after_throws(2) hook [OF after_throws(1) q']]]
      by simp
  next
    case (returns s1 res s2 s3)
    then show ?thesis
      using hook [OF returns(3) fetch_ok [OF returns(2) hook [OF returns(1) q']]]
      by simp
  next
    case (wait_rejected s1 res s2 s3 p ms e s4)
    then show ?thesis
      using sleep_rejected [of env k ms s3 e s4] by (simp add: isAbortError_def AbortedDOMException_def)
  next
    case (wait_resolved s1 res s2 s3 p ms s4)
    then show ?thesis by simp
  qed
qed

lemma attempt_body_fired:
  assumes q: "\<forall>rr w n. Fired rr w n \<notin> set (trace s)"
    and w: "w = AwaitSleep \<or> (w = AwaitTransport \<and> fetchObservesSignal env)"
    and d: "attempt_body env f pol tot k le s = Done r s'"
    and fi: "Fired rr w n \<in> set (trace s')"
  shows "\<exists>e. r = Inl e \<and> (isAbortError e \<or> e = rr)"
proof (cases rule: attempt_body_cases [of env f pol tot k s le])
  case (returned res s1)
  then show ?thesis using try_block_fired [OF q w, of f pol tot k rr n] d fi by auto
next
  case (continued s1)
  then show ?thesis using d by simp
next
  case (aborted e s1)
  then show ?thesis using d by auto
next
  case (failed e s1)
  then show ?thesis using try_block_fired [OF q w, of f pol tot k rr n] d fi by auto
next
  case (backoff_rejected e s1 p a s2)
  then show ?thesis
    using d sleep_rejected [OF backoff_rejected(5)]
    by (auto simp: isAbortError_def AbortedDOMException_def)
next
  case (backoff_resolved e s1 p s2)
  then show ?thesis using d by simp
qed

lemma attempts_fired:
  assumes "attempts env f pol tot k le s = (r, s')"
    and "\<forall>rr w n. Fired rr w n \<notin> set (trace s)"
    and "w = AwaitSleep \<or> (w = AwaitTransport \<and> fetchObservesSignal env)"
    and "Fired rr w n \<in> set (trace s')"
  shows "\<exists>e. r = Inl e \<and> (isAbortError e \<or> e = rr)"
  using assms
proof (induction env f pol tot k le s rule: attempts.induct)
  case (1 env f pol tot k le s)
  show ?case
  proof (cases "k \<le> tot")
    case False
    with "1.prems" show ?thesis by (auto simp: attempts_exit)
  next
    case True
    let ?s0 = "logEvent (AttemptStart k (now s)) s"
    have q0: "\<forall>rr w n. Fired rr w n \<notin> set (trace ?s0)" using "1.prems"(2) by simp
    show ?thesis
    proof (cases "attempt_body env f pol tot k le ?s0")
      case (Done r0 s0)
      with True "1.prems"(1) have "r0 = r" "s0 = s'" by (simp_all add: attempts_step)
      with Done attempt_body_fired [OF q0 "1.prems"(3), of f pol tot k le r s' rr n] "1.prems"(4)
      show ?thesis by simp
    next
      case (Next e s1)
      with True "1.prems"(1) have run: "attempts env f pol tot (k + 1) e s1 = (r, s')"
        by (simp add: attempts_step)
      have q1: "\<forall>rr w n. Fired rr w n \<notin> set (trace s1)"
        by (rule attempt_body_next_quiet [OF q0 Next])
      from "1.IH" [OF True Next run q1 "1.prems"(3,4)] show ?thesis .
    qed
  qed
qed

lemma composeSignal_trace:
  "trace (composeSignal env b tm (idle t)) = [] \<or> (\<exists>d. trace (composeSignal env b tm (idle t)) = [TimerStart d])"
  by (auto simp: composeSignal_def idle_def Let_def split: option.splits)

text \<open>
  C3, as the claim states it, fails: the caller aborts 100 ms into the first attempt's
  transport call, the composed signal fires, but the transport ignores \<open>init.signal\<close>
  and answers 200 after a second; \<open>requestWithRetry\<close> returns that response, and no
  abort failure is propagated.
\<close>

theorem ignored_signal_returns_response:
  "Fired defaultAbortReason AwaitTransport 1
     \<in> set (trace (snd (requestWithRetry deafEnv (Some abortsAt100) None (Some oneRetry) 0)))
   \<and> fst (requestWithRetry deafEnv (Some abortsAt100) None (Some oneRetry) 0) = Inr okResponse
   \<and> trace (snd (requestWithRetry deafEnv (Some abortsAt100) None (Some oneRetry) 0))
       = [Cleanup, Fired defaultAbortReason AwaitTransport 1, TransportCall 1 0, AttemptStart 1 0]"
  by (simp add: run_defs scenario_defs)

text \<open>
  C3, amended: when the composed signal fires in attempt \<open>n\<close>, no attempt with a higher
  number is ever started, whatever the transport does. When it fires during a backoff
  wait, or during the call of a transport that honours the signal, the request fails,
  with an abort error or with the signal's reason. And an abort error thrown in the
  \<open>try\<close> block of an attempt is propagated at once, after \<open>cleanup\<close>, whether or not
  attempts remain.
\<close>

theorem cancellation_ends_request:
  assumes run: "requestWithRetry env sig tmo pol t = (r, s')"
    and fi: "Fired rr w n \<in> set (trace s')"
  shows "(\<forall>m \<tau>. AttemptStart m \<tau> \<in> set (trace s') \<longrightarrow> m \<le> n)
       \<and> (w = AwaitSleep \<or> (w = AwaitTransport \<and> fetchObservesSignal env)
            \<longrightarrow> (\<exists>e. r = Inl e \<and> (isAbortError e \<or> e = rr)))
       \<and> (\<forall>f k tot le s e s1.
             try_block env f pol tot k (logEvent (AttemptStart k (now s)) s) = Throw e s1
             \<and> isAbortError e \<and> k \<le> tot
             \<longrightarrow> attempts env f pol tot k le s = (Inl e, cleanup s1))"
proof (cases "fetchFn env")
  case None
  with run fi show ?thesis by (auto simp: requestWithRetry_def idle_def)
next
  case (Some f)
  let ?s = "composeSignal env sig (case tmo of Some ms \<Rightarrow> Some ms | None \<Rightarrow> defaultTimeout env) (idle t)"
  let ?tot = "(case pol of Some p \<Rightarrow> retries p | None \<Rightarrow> 0) + 1"
  have at: "attempts env f pol ?tot 1 None ?s = (r, s')"
    using run Some by (simp add: requestWithRetry_def Let_def)
  note ct = composeSignal_trace
    [of env sig "case tmo of Some ms \<Rightarrow> Some ms | None \<Rightarrow> defaultTimeout env" t]
  have q: "\<forall>rr w n. Fired rr w n \<notin> set (trace ?s)"
    using ct by auto
  have a: "\<forall>m \<tau>. AttemptStart m \<tau> \<in> set (trace ?s) \<longrightarrow> m < 1"
    using ct by auto
  have 1: "\<forall>m \<tau>. AttemptStart m \<tau> \<in> set (trace s') \<longrightarrow> m \<le> n"
    using attempts_no_start_after_fired [OF at q a fi] by blast
  have 2: "\<exists>e. r = Inl e \<and> (isAbortError e \<or> e = rr)"
    if "w = AwaitSleep \<or> (w = AwaitTransport \<and> fetchObservesSignal env)"
    using attempts_fired [OF at q that fi] .
  have 3: "attempts env f pol tot k le s = (Inl e, cleanup s1)"
    if "try_block env f pol tot k (logEvent (AttemptStart k (now s)) s) = Throw e s1"
      "isAbortError e" "k \<le> tot" for f k tot le s e s1
    using that by (simp add: attempts_step attempt_body_def)
  show ?thesis using 1 2 3 by blast
qed

theorem cancellation_ends_request_witness:
  "Fired defaultAbortReason AwaitSleep 1
     \<in> set (trace (snd (requestWithRetry always503 (Some abortsAt100) None (Some oneRetry) 0)))
   \<and> fst (requestWithRetry always503 (Some abortsAt100) None (Some oneRetry) 0)
       = Inl AbortedDOMException
   \<and> isAbortError AbortedDOMException
   \<and> AttemptStart 1 0
       \<in> set (trace (snd (requestWithRetry always503 (Some abortsAt100) None (Some oneRetry) 0)))
   \<and> attemptsStarted (snd (requestWithRetry always503 (Some abortsAt100) None (Some oneRetry) 0)) = 1
   \<and> fetchObservesSignal slowEnv
   \<and> Fired defaultAbortReason AwaitTransport 1
       \<in> set (trace (snd (requestWithRetry slowEnv (Some abortsAt100) None (Some oneRetry) 0)))
   \<and> fst (requestWithRetry slowEnv (Some abortsAt100) None (Some oneRetry) 0)
       = Inl defaultAbortReason
   \<and> attemptsStarted (snd (requestWithRetry slowEnv (Some abortsAt100) None (Some oneRetry) 0)) = 1
   \<and> retries oneRetry = 1"
proof -
  let ?a = "requestWithRetry always503 (Some abortsAt100) None (Some oneRetry) 0"
  let ?b = "requestWithRetry slowEnv (Some abortsAt100) None (Some oneRetry) 0"
  have ra: "?a = (fst ?a, snd ?a)" and rb: "?b = (fst ?b, snd ?b)" by simp_all
  have fa: "Fired defaultAbortReason AwaitSleep 1 \<in> set (trace (snd ?a))"
    by (simp add: run_defs scenario_defs)
  have fb: "Fired defaultAbortReason AwaitTransport 1 \<in> set (trace (snd ?b))"
    by (simp add: run_defs scenario_defs)
  have ob: "fetchObservesSignal slowEnv" by (simp add: scenario_defs)
  have sa: "AttemptStart 1 0 \<in> set (trace (snd ?a))" by (simp add: run_defs scenario_defs)
  from cancellation_ends_request [OF ra fa]
  have 1: "\<exists>e. fst ?a = Inl e \<and> (isAbortError e \<or> e = defaultAbortReason)" by blast
  from cancellation_ends_request [OF rb fb] ob
  have 2: "\<exists>e. fst ?b = Inl e \<and> (isAbortError e \<or> e = defaultAbortReason)" by blast
  have 3: "fst ?a = Inl AbortedDOMException" "attemptsStarted (snd ?a) = 1"
    "fst ?b = Inl defaultAbortReason" "attemptsStarted (snd ?b) = 1"
    by (simp_all add: run_defs scenario_defs)
  show ?thesis using 1 2 3 fa fb ob sa by (simp add: isAbortError_def AbortedDOMException_def oneRetry_def)
qed

section \<open>The timeout budget\<close>

text \<open>
  While the composed signal is not aborted, the timer is pending: time cannot pass its
  expiry without the signal firing, and an awaited wait or transport call that would
  last until then ends with the signal aborted.
\<close>

lemma withinBudget_logEvent [simp]: "withinBudget d (logEvent e s) = withinBudget d s"
  by (simp add: withinBudget_def)

lemma advance_fired_mono: "fired s \<noteq> None \<Longrightarrow> fired (advance w k t s) = fired s"
  by (auto simp: advance_fields)

lemma withinBudget_advance: "withinBudget d s \<Longrightarrow> withinBudget d (advance w k t s)"
  by (auto simp: withinBudget_def advance_fields strikes_def timerDue_def split: option.splits if_splits)

lemma advance_unfired_before:
  "withinBudget d s \<Longrightarrow> fired (advance w k t s) = None \<Longrightarrow> t < d \<and> fired s = None"
  by (auto simp: withinBudget_def advance_fields strikes_def timerDue_def split: option.splits if_splits)

lemma nextDue_budget:
  "timer s = Some d \<Longrightarrow> \<exists>f. nextDue s = Some f \<and> f \<le> d"
  by (auto simp: nextDue_def Let_def split: option.splits)

lemma await_budget: "withinBudget d s \<Longrightarrow> withinBudget d (await w k dur s)"
  by (simp add: await_def Let_def withinBudget_advance)

lemma await_fired_mono: "fired s \<noteq> None \<Longrightarrow> fired (await w k dur s) \<noteq> None"
  by (simp add: await_def Let_def advance_fired_mono)

lemma await_unfired_short:
  assumes "withinBudget d s" "fired (await w k dur s) = None"
  shows "now s + max 0 dur < d \<and> fired s = None \<and> now (await w k dur s) < d
         \<and> timer (await w k dur s) = Some d"
proof -
  let ?t = "case nextDue s of None \<Rightarrow> now s + max 0 dur | Some f \<Rightarrow> min f (now s + max 0 dur)"
  have a: "await w k dur s = advance w k ?t s" by (simp add: await_def Let_def)
  from advance_unfired_before [OF assms(1), of w k ?t] assms(2)
  have t: "?t < d" "fired s = None" by (simp_all add: a)
  then have tm: "timer s = Some d" "now s \<le> d" using assms(1) by (simp_all add: withinBudget_def)
  from nextDue_budget [OF tm(1)] obtain f where f: "nextDue s = Some f" "f \<le> d" by auto
  have "fired (advance w k ?t s) = None" using assms(2) by (simp add: a)
  then have nf: "\<not> f \<le> now s + max 0 dur"
    using f t(2) tm
    by (auto simp: advance_fields strikes_def timerDue_def callerDue_def nextDue_def Let_def min_def
        split: option.splits if_splits)
  then have short: "now s + max 0 dur < d" using t(1) f by (simp add: min_def split: if_splits)
  have "now (await w k dur s) = max (now s) ?t" by (simp add: a advance_fields)
  then have "now (await w k dur s) < d" using short f nf by (simp add: min_def)
  moreover have "timer (await w k dur s) = Some d"
    using await_budget [OF assms(1), of w k dur] assms(2) by (simp add: withinBudget_def)
  ultimately show ?thesis using short t(2) by simp
qed

lemma await_now_within:
  assumes "withinBudget d s" "fired s = None"
  shows "now (await w k dur s) \<le> d"
proof -
  have tm: "timer s = Some d" "now s \<le> d" using assms by (simp_all add: withinBudget_def)
  from nextDue_budget [OF tm(1)] obtain f where f: "nextDue s = Some f" "f \<le> d" by auto
  show ?thesis using f tm by (simp add: await_def Let_def advance_fields min_def)
qed

lemma await_trace:
  "e \<in> set (trace (await w k dur s)) \<Longrightarrow> e \<in> set (trace s) \<or> (\<exists>r. e = Fired r w k)"
  unfolding await_def Let_def by (blast dest: advance_mem)

text \<open>The single operations and the budget.\<close>

lemma runHook_budget: "withinBudget d x \<Longrightarrow> withinBudget d (snd (runHook h k x))"
  by (simp add: runHook_def elapse_def withinBudget_advance split: option.splits)

lemma runHook_trace:
  "e \<in> set (trace (snd (runHook h k x))) \<Longrightarrow> e \<in> set (trace x) \<or> (\<exists>r. e = Fired r AwaitHook k)"
  by (auto simp: runHook_def elapse_def split: option.splits dest: advance_mem)

lemma runHook_fired_mono: "fired x \<noteq> None \<Longrightarrow> fired (snd (runHook h k x)) \<noteq> None"
  by (simp add: runHook_def elapse_def advance_fired_mono split: option.splits)

lemma callFetch_budget: "withinBudget d x \<Longrightarrow> withinBudget d (snd (callFetch env f k x))"
  by (simp add: callFetch_def elapse_def Let_def withinBudget_advance await_budget
      split: option.splits)

lemma callFetch_trace:
  "e \<in> set (trace (snd (callFetch env f k x)))
   \<Longrightarrow> e \<in> set (trace x) \<or> e = TransportCall k (now x) \<or> (\<exists>r. e = Fired r AwaitTransport k)"
  by (auto simp: callFetch_def elapse_def Let_def split: option.splits if_splits
      dest!: advance_mem await_trace)

lemma callFetch_fired_mono: "fired x \<noteq> None \<Longrightarrow> fired (snd (callFetch env f k x)) \<noteq> None"
  by (auto simp: callFetch_def elapse_def Let_def advance_fired_mono split: option.splits)

lemma callFetch_gated:
  assumes "withinBudget d x" "d \<le> now x + max 0 (fst (f k))"
  shows "fired (snd (callFetch env f k x)) \<noteq> None"
proof (cases "fired x")
  case (Some r)
  then show ?thesis using callFetch_fired_mono [of x env f k] by simp
next
  case None
  let ?s0 = "logEvent (TransportCall k (now x)) x"
  have b: "withinBudget d ?s0" using assms(1) by simp
  have 1: "fired (await AwaitTransport k (fst (f k)) ?s0) \<noteq> None"
    using await_unfired_short [of d ?s0 AwaitTransport k "fst (f k)"] assms by auto
  have 2: "fired (elapse AwaitTransport k (fst (f k)) ?s0) \<noteq> None"
    using advance_unfired_before [OF b, of AwaitTransport k "now ?s0 + max 0 (fst (f k))"] assms(2)
    by (auto simp: elapse_def)
  show ?thesis using None 1 2 by (auto simp: callFetch_def Let_def split: option.splits)
qed

lemma callFetch_response_unfired:
  "fetchObservesSignal env \<Longrightarrow> callFetch env f k x = (Inr res, y) \<Longrightarrow> fired y = None"
  by (auto simp: callFetch_def Let_def split: option.splits)

lemma callFetch_now:
  assumes "fetchObservesSignal env" "withinBudget d x" "now x \<le> d"
  shows "now (snd (callFetch env f k x)) \<le> d"
proof (cases "fired x")
  case (Some r)
  then show ?thesis using assms by (simp add: callFetch_def Let_def)
next
  case None
  let ?s0 = "logEvent (TransportCall k (now x)) x"
  have "now (await AwaitTransport k (fst (f k)) ?s0) \<le> d"
    using await_now_within [of d ?s0 AwaitTransport k "fst (f k)"] assms(2) None by simp
  then show ?thesis using assms(1) None by (auto simp: callFetch_def Let_def split: option.splits)
qed

lemma sleep_trace:
  "e \<in> set (trace (snd (sleep env k ms x)))
   \<Longrightarrow> e \<in> set (trace x) \<or> e = SleepCall k ms (now x) \<or> (\<exists>r. e = Fired r AwaitSleep k)"
  by (auto simp: sleep_def Let_def split: if_splits dest!: await_trace)

lemma sleep_now:
  assumes "withinBudget d x" "now x \<le> d"
  shows "now (snd (sleep env k ms x)) \<le> d"
proof (cases "fired x")
  case (Some r)
  then show ?thesis using assms by (simp add: sleep_def Let_def)
next
  case None
  let ?s0 = "logEvent (SleepCall k ms (now x)) x"
  have "now (await AwaitSleep k (timerDelay env ms) ?s0) \<le> d"
    using await_now_within [of d ?s0 AwaitSleep k "timerDelay env ms"] assms(1) None by simp
  then show ?thesis using None by (auto simp: sleep_def Let_def)
qed

lemma sleep_resolved_short:
  assumes "withinBudget d x" "sleep env k ms x = (None, y)"
  shows "now x + max 0 (timerDelay env ms) < d \<and> fired x = None \<and> fired y = None
         \<and> timer y = Some d \<and> now y < d"
proof -
  let ?s0 = "logEvent (SleepCall k ms (now x)) x"
  have y: "y = await AwaitSleep k (timerDelay env ms) ?s0" "fired y = None"
    using assms(2) by (auto simp: sleep_def Let_def split: if_splits)
  from await_unfired_short [of d ?s0 AwaitSleep k "timerDelay env ms"] assms(1) y
  show ?thesis by simp
qed

text \<open>The invariants of the attempt loop under a budget.\<close>

lemma duringAttempt_fields:
  assumes "duringAttempt env f d n x"
  shows "withinBudget d x"
    "AttemptStart m \<tau> \<in> set (trace x) \<Longrightarrow> m \<le> n \<and> \<tau> \<le> d \<and> (1 < m \<longrightarrow> \<tau> < d)"
    "SleepCall k ms \<tau> \<in> set (trace x) \<Longrightarrow> \<tau> + max 0 (timerDelay env ms) < d"
    "TransportCall k \<tau> \<in> set (trace x) \<Longrightarrow> d \<le> \<tau> + max 0 (fst (f k))
       \<Longrightarrow> k = n \<and> fired x \<noteq> None"
    "fetchObservesSignal env \<Longrightarrow> beforeRequest env = None \<Longrightarrow> afterResponse env = None
       \<Longrightarrow> now x \<le> d"
  using assms unfolding duringAttempt_def by blast+

lemma betweenAttempts_fields:
  assumes "betweenAttempts env f d n x"
  shows "fired x = None" "timer x = Some d" "now x \<le> d" "1 < n \<Longrightarrow> now x < d"
    "AttemptStart m \<tau> \<in> set (trace x) \<Longrightarrow> m < n \<and> \<tau> \<le> d \<and> (1 < m \<longrightarrow> \<tau> < d)"
    "SleepCall k ms \<tau> \<in> set (trace x) \<Longrightarrow> \<tau> + max 0 (timerDelay env ms) < d"
    "TransportCall k \<tau> \<in> set (trace x) \<Longrightarrow> \<tau> + max 0 (fst (f k)) < d"
  using assms unfolding betweenAttempts_def by blast+

lemma duringAttempt_intro:
  assumes "withinBudget d x"
    and "\<And>m \<tau>. AttemptStart m \<tau> \<in> set (trace x) \<Longrightarrow> m \<le> n \<and> \<tau> \<le> d \<and> (1 < m \<longrightarrow> \<tau> < d)"
    and "\<And>k ms \<tau>. SleepCall k ms \<tau> \<in> set (trace x) \<Longrightarrow> \<tau> + max 0 (timerDelay env ms) < d"
    and "\<And>k \<tau>. TransportCall k \<tau> \<in> set (trace x) \<Longrightarrow> d \<le> \<tau> + max 0 (fst (f k))
           \<Longrightarrow> k = n \<and> fired x \<noteq> None"
    and "fetchObservesSignal env \<Longrightarrow> beforeRequest env = None \<Longrightarrow> afterResponse env = None
           \<Longrightarrow> now x \<le> d"
  shows "duringAttempt env f d n x"
  unfolding duringAttempt_def using assms by blast

lemma duringAttempt_start:
  assumes "betweenAttempts env f d n s"
  shows "duringAttempt env f d n (logEvent (AttemptStart n (now s)) s)"
proof (rule duringAttempt_intro, goal_cases)
  note j = betweenAttempts_fields [OF assms]
  case 1 show ?case using j(1-3) by (simp add: withinBudget_def)
next
  note j = betweenAttempts_fields [OF assms]
  case (2 m \<tau>)
  then consider "m = n" "\<tau> = now s" | "AttemptStart m \<tau> \<in> set (trace s)" by auto
  then show ?case
  proof cases
    case 1 then show ?thesis using j(3,4) by simp
  next
    case 2 then show ?thesis using j(5) [of m \<tau>] by simp
  qed
next
  note j = betweenAttempts_fields [OF assms]
  case (3 k ms \<tau>) then show ?case using j(6) by simp
next
  note j = betweenAttempts_fields [OF assms]
  case (4 k \<tau>)
  then have "\<tau> + max 0 (fst (f k)) < d" using j(7) by simp
  then show ?case using 4(2) by simp
next
  note j = betweenAttempts_fields [OF assms]
  case 5 show ?case using j(3) by simp
qed

lemma duringAttempt_runHook:
  assumes h: "h = beforeRequest env \<or> h = afterResponse env" and i: "duringAttempt env f d n x"
  shows "duringAttempt env f d n (snd (runHook h n x))"
proof (rule duringAttempt_intro, goal_cases)
  note f = duringAttempt_fields [OF i]
  case 1 show ?case using f(1) by (rule runHook_budget)
next
  note f = duringAttempt_fields [OF i]
  case (2 m \<tau>) then show ?case using f(2) runHook_trace [of _ h n x] by blast
next
  note f = duringAttempt_fields [OF i]
  case (3 k ms \<tau>) then show ?case using f(3) runHook_trace [of _ h n x] by blast
next
  note f = duringAttempt_fields [OF i]
  case (4 k \<tau>)
  then have "TransportCall k \<tau> \<in> set (trace x)" using runHook_trace [of _ h n x] by blast
  then have "k = n \<and> fired x \<noteq> None" using f(4) 4(2) by blast
  then show ?case using runHook_fired_mono [of x h n] by simp
next
  note f = duringAttempt_fields [OF i]
  case 5
  then have "runHook h n x = (None, x)" using h by (auto simp: runHook_def)
  then show ?case using f(5) 5 by simp
qed

lemma duringAttempt_callFetch:
  assumes i: "duringAttempt env f d n x"
  shows "duringAttempt env f d n (snd (callFetch env f n x))"
proof (rule duringAttempt_intro, goal_cases)
  note f = duringAttempt_fields [OF i]
  case 1 show ?case using f(1) by (rule callFetch_budget)
next
  note f = duringAttempt_fields [OF i]
  case (2 m \<tau>) then show ?case using f(2) callFetch_trace [of _ env f n x] by blast
next
  note f = duringAttempt_fields [OF i]
  case (3 k ms \<tau>) then show ?case using f(3) callFetch_trace [of _ env f n x] by blast
next
  note f = duringAttempt_fields [OF i]
  case (4 k \<tau>)
  then consider "TransportCall k \<tau> \<in> set (trace x)" | "k = n" "\<tau> = now x"
    using callFetch_trace [of _ env f n x] by blast
  then show ?case
  proof cases
    case 1
    then have "k = n \<and> fired x \<noteq> None" using f(4) 4(2) by blast
    then show ?thesis using callFetch_fired_mono [of x env f n] by simp
  next
    case 2
    then show ?thesis using callFetch_gated [OF f(1), of f n env] 4(2) by simp
  qed
next
  note f = duringAttempt_fields [OF i]
  case 5
  then show ?case using callFetch_now [OF _ f(1), of env f n] f(5) by simp
qed

lemma betweenAttempts_sleep:
  assumes i: "duringAttempt env f d n x" and sl: "sleep env n ms x = (None, y)"
  shows "betweenAttempts env f d (n + 1) y"
proof -
  note f = duringAttempt_fields [OF i]
  have tr: "e \<in> set (trace y)
      \<Longrightarrow> e \<in> set (trace x) \<or> e = SleepCall n ms (now x) \<or> (\<exists>r. e = Fired r AwaitSleep n)" for e
    using sleep_trace [of e env n ms x] sl by simp
  note s = sleep_resolved_short [OF f(1) sl]
  have 2: "\<forall>m \<tau>. AttemptStart m \<tau> \<in> set (trace y) \<longrightarrow> m < n + 1 \<and> \<tau> \<le> d \<and> (1 < m \<longrightarrow> \<tau> < d)"
  proof (intro allI impI)
    fix m \<tau> assume "AttemptStart m \<tau> \<in> set (trace y)"
    then have "AttemptStart m \<tau> \<in> set (trace x)" using tr by blast
    then have "m \<le> n \<and> \<tau> \<le> d \<and> (1 < m \<longrightarrow> \<tau> < d)" using f(2) by blast
    then show "m < n + 1 \<and> \<tau> \<le> d \<and> (1 < m \<longrightarrow> \<tau> < d)" by simp
  qed
  have 3: "\<forall>k ms' \<tau>. SleepCall k ms' \<tau> \<in> set (trace y) \<longrightarrow> \<tau> + max 0 (timerDelay env ms') < d"
  proof (intro allI impI)
    fix k ms' \<tau> assume "SleepCall k ms' \<tau> \<in> set (trace y)"
    then consider "SleepCall k ms' \<tau> \<in> set (trace x)" | "ms' = ms" "\<tau> = now x" using tr by blast
    then show "\<tau> + max 0 (timerDelay env ms') < d"
    proof cases
      case 1
      then show ?thesis using f(3) by blast
    next
      case 2
      then show ?thesis using s by simp
    qed
  qed
  have 4: "\<forall>k \<tau>. TransportCall k \<tau> \<in> set (trace y) \<longrightarrow> \<tau> + max 0 (fst (f k)) < d"
  proof (intro allI impI)
    fix k \<tau> assume "TransportCall k \<tau> \<in> set (trace y)"
    then have c: "TransportCall k \<tau> \<in> set (trace x)" using tr by blast
    show "\<tau> + max 0 (fst (f k)) < d"
    proof (rule ccontr)
      assume "\<not> \<tau> + max 0 (fst (f k)) < d"
      then have "fired x \<noteq> None" using f(4) [OF c] by simp
      then show False using s by simp
    qed
  qed
  show ?thesis unfolding betweenAttempts_def using s 2 3 4 by simp
qed

lemma budget_conclusion:
  assumes A: "\<And>m \<tau>. AttemptStart m \<tau> \<in> set (trace s') \<Longrightarrow> m \<le> n \<and> \<tau> \<le> d \<and> (1 < m \<longrightarrow> \<tau> < d)"
    and S: "\<And>k ms \<tau>. SleepCall k ms \<tau> \<in> set (trace s') \<Longrightarrow> d \<le> \<tau> + max 0 (timerDelay env ms)
              \<Longrightarrow> k = n \<and> r = Inl AbortedDOMException \<and> fired s' \<noteq> None"
    and T: "\<And>k \<tau>. TransportCall k \<tau> \<in> set (trace s') \<Longrightarrow> d \<le> \<tau> + max 0 (fst (f k))
              \<Longrightarrow> k = n \<and> fired s' \<noteq> None \<and> (fetchObservesSignal env \<longrightarrow> (\<exists>e. r = Inl e))"
    and N: "fetchObservesSignal env \<Longrightarrow> beforeRequest env = None \<Longrightarrow> afterResponse env = None
              \<Longrightarrow> now s' \<le> d"
  shows "(\<forall>m \<tau>. AttemptStart m \<tau> \<in> set (trace s') \<longrightarrow> \<tau> \<le> d \<and> (1 < m \<longrightarrow> \<tau> < d))
       \<and> (\<forall>n ms \<tau>. SleepCall n ms \<tau> \<in> set (trace s') \<and> d \<le> \<tau> + max 0 (timerDelay env ms)
            \<longrightarrow> r = Inl AbortedDOMException \<and> fired s' \<noteq> None
                \<and> (\<forall>m \<tau>'. AttemptStart m \<tau>' \<in> set (trace s') \<longrightarrow> m \<le> n))
       \<and> (\<forall>n \<tau>. TransportCall n \<tau> \<in> set (trace s') \<and> d \<le> \<tau> + max 0 (fst (f n))
            \<longrightarrow> fired s' \<noteq> None
                \<and> (\<forall>m \<tau>'. AttemptStart m \<tau>' \<in> set (trace s') \<longrightarrow> m \<le> n)
                \<and> (fetchObservesSignal env \<longrightarrow> (\<exists>e. r = Inl e)))
       \<and> (fetchObservesSignal env \<and> beforeRequest env = None \<and> afterResponse env = None
            \<longrightarrow> now s' \<le> d)"
proof (intro conjI allI impI, goal_cases)
  case (1 m \<tau>) then show ?case using A by blast
next
  case (2 m \<tau>) then show ?case using A by blast
next
  case (3 k ms \<tau>) then show ?case using S by blast
next
  case (4 k ms \<tau>) then show ?case using S by blast
next
  case (5 k ms \<tau> m \<tau>')
  then have "k = n" using S by blast
  then show ?case using A [OF 5(2)] by simp
next
  case (6 k \<tau>) then show ?case using T by blast
next
  case (7 k \<tau> m \<tau>')
  then have "k = n" using T by blast
  then show ?case using A [OF 7(2)] by simp
next
  case (8 k \<tau>) then show ?case using T by blast
next
  case 9 then show ?case using N by blast
qed

lemma cleanup_events:
  assumes "s' = cleanup x"
  shows "AttemptStart m \<tau> \<in> set (trace s') \<Longrightarrow> AttemptStart m \<tau> \<in> set (trace x)"
    "SleepCall k ms \<tau> \<in> set (trace s') \<Longrightarrow> SleepCall k ms \<tau> \<in> set (trace x)"
    "TransportCall k \<tau> \<in> set (trace s') \<Longrightarrow> TransportCall k \<tau> \<in> set (trace x)"
  using assms by simp_all

lemma runHook_events:
  shows "AttemptStart m \<tau> \<in> set (trace (snd (runHook h n x))) \<Longrightarrow> AttemptStart m \<tau> \<in> set (trace x)"
    "SleepCall k ms \<tau> \<in> set (trace (snd (runHook h n x))) \<Longrightarrow> SleepCall k ms \<tau> \<in> set (trace x)"
    "TransportCall k \<tau> \<in> set (trace (snd (runHook h n x))) \<Longrightarrow> TransportCall k \<tau> \<in> set (trace x)"
  by (auto dest: runHook_trace)

lemma sleep_events:
  assumes "sleep env n ms x = (out, y)"
  shows "AttemptStart m \<tau> \<in> set (trace y) \<Longrightarrow> AttemptStart m \<tau> \<in> set (trace x)"
    "SleepCall k ms' \<tau> \<in> set (trace y) \<Longrightarrow> SleepCall k ms' \<tau> \<in> set (trace x) \<or> k = n"
    "TransportCall k \<tau> \<in> set (trace y) \<Longrightarrow> TransportCall k \<tau> \<in> set (trace x)"
  using sleep_trace [of _ env n ms x] assms by fastforce+

text \<open>What a request that runs within a budget leaves behind.\<close>

lemma attempts_budget:
  assumes run: "attempts env f pol tot k le s = (r, s')"
    and j: "betweenAttempts env f d k s"
  shows "(\<forall>m \<tau>. AttemptStart m \<tau> \<in> set (trace s') \<longrightarrow> \<tau> \<le> d \<and> (1 < m \<longrightarrow> \<tau> < d))
       \<and> (\<forall>n ms \<tau>. SleepCall n ms \<tau> \<in> set (trace s') \<and> d \<le> \<tau> + max 0 (timerDelay env ms)
            \<longrightarrow> r = Inl AbortedDOMException \<and> fired s' \<noteq> None
                \<and> (\<forall>m \<tau>'. AttemptStart m \<tau>' \<in> set (trace s') \<longrightarrow> m \<le> n))
       \<and> (\<forall>n \<tau>. TransportCall n \<tau> \<in> set (trace s') \<and> d \<le> \<tau> + max 0 (fst (f n))
            \<longrightarrow> fired s' \<noteq> None
                \<and> (\<forall>m \<tau>'. AttemptStart m \<tau>' \<in> set (trace s') \<longrightarrow> m \<le> n)
                \<and> (fetchObservesSignal env \<longrightarrow> (\<exists>e. r = Inl e)))
       \<and> (fetchObservesSignal env \<and> beforeRequest env = None \<and> afterResponse env = None
            \<longrightarrow> now s' \<le> d)"
proof (rule attempts_ends [of env f pol tot k le s r s' "betweenAttempts env f d" "duringAttempt env f d",
        OF run j], goal_cases)
  case (1 k s)
  then show ?case by (intro duringAttempt_start)
next
  case (2 k h x)
  then show ?case by (intro duringAttempt_runHook)
next
  case (3 k x)
  then show ?case by (intro duringAttempt_callFetch)
next
  case (4 k x ms y)
  then show ?case by (intro betweenAttempts_sleep [of env f d k x ms y])
next
  case (5 n e x)
  note i = duringAttempt_fields [OF 5(1)] and ev = cleanup_events [OF 5(3)]
  have fr: "fired s' = fired x" "now s' = now x" using 5(3) by simp_all
  show ?case
  proof (rule budget_conclusion [of s' n d env r f], goal_cases)
    case (1 m \<tau>) then show ?case using i(2) ev(1) by blast
  next
    case (2 k ms \<tau>)
    then have "\<tau> + max 0 (timerDelay env ms) < d" using i(3) ev(2) by blast
    then show ?case using 2(2) by simp
  next
    case (3 k \<tau>)
    then have "k = n \<and> fired x \<noteq> None" using i(4) ev(3) by blast
    then show ?case using 5(2) fr by simp
  next
    case 4 then show ?case using i(5) fr by simp
  qed
next
  case (6 n res x1 x2)
  let ?x3 = "snd (runHook (afterResponse env) n x2)"
  have i2: "duringAttempt env f d n x2"
    using duringAttempt_callFetch [OF 6(1)] 6(2) by simp
  have i3: "duringAttempt env f d n ?x3"
    using duringAttempt_runHook [OF _ i2, of "afterResponse env"] by simp
  note i = duringAttempt_fields [OF i3] and ev = cleanup_events [OF 6(4)]
    and ev3 = runHook_events [where h = "afterResponse env" and n = n and x = x2]
  have fr: "fired s' = fired ?x3" "now s' = now ?x3" using 6(4) by simp_all
  show ?case
  proof (rule budget_conclusion [of s' n d env r f], goal_cases)
    case (1 m \<tau>) then show ?case using i(2) ev(1) by blast
  next
    case (2 k ms \<tau>)
    then have "\<tau> + max 0 (timerDelay env ms) < d" using i(3) ev(2) by blast
    then show ?case using 2(2) by simp
  next
    case (3 k \<tau>)
    then have c: "TransportCall k \<tau> \<in> set (trace x2)" using ev(3) ev3(3) by blast
    have g: "k = n \<and> fired ?x3 \<noteq> None" using i(4) [OF ev(3) [OF 3(1)] 3(2)] .
    have "\<not> fetchObservesSignal env"
    proof
      assume o: "fetchObservesSignal env"
      have "fired x2 \<noteq> None" using duringAttempt_fields(4) [OF i2 c 3(2)] by simp
      then show False using callFetch_response_unfired [OF o 6(2)] by simp
    qed
    then show ?case using g fr by simp
  next
    case 4 then show ?case using i(5) fr by simp
  qed
next
  case (7 n x ms a y)
  note i = duringAttempt_fields [OF 7(1)] and sv = sleep_events [OF 7(2)]
  have a: "a = AbortedDOMException" "fired y \<noteq> None" using sleep_rejected [OF 7(2)] by simp_all
  have fr: "fired s' = fired y" "now s' = now y" using 7(4) by auto
  have ev: "AttemptStart m \<tau> \<in> set (trace s') \<Longrightarrow> AttemptStart m \<tau> \<in> set (trace y)"
    "SleepCall k ms' \<tau> \<in> set (trace s') \<Longrightarrow> SleepCall k ms' \<tau> \<in> set (trace y)"
    "TransportCall k \<tau> \<in> set (trace s') \<Longrightarrow> TransportCall k \<tau> \<in> set (trace y)"
    for m \<tau> k ms'
    using 7(4) by auto
  show ?case
  proof (rule budget_conclusion [of s' n d env r f], goal_cases)
    case (1 m \<tau>) then show ?case using i(2) ev(1) sv(1) by blast
  next
    case (2 k ms' \<tau>)
    then consider "SleepCall k ms' \<tau> \<in> set (trace x)" | "k = n" using ev(2) sv(2) by blast
    then have "k = n"
    proof cases
      case 1
      then have "\<tau> + max 0 (timerDelay env ms') < d" using i(3) by blast
      then show ?thesis using 2(2) by simp
    qed
    then show ?case using a 7(3) fr by simp
  next
    case (3 k \<tau>)
    then have "TransportCall k \<tau> \<in> set (trace x)" using ev(3) sv(3) by blast
    then have "k = n" using i(4) 3 by blast
    then show ?case using a 7(3) fr by simp
  next
    case 4
    then have "now x \<le> d" using i(5) by simp
    then show ?case using sleep_now [OF i(1), of env n ms] 7(2) fr by simp
  qed
next
  case (8 n x)
  note jx = betweenAttempts_fields [OF 8(1)] and ev = cleanup_events [OF 8(2)]
  have fr: "now s' = now x" using 8(2) by simp
  show ?case
  proof (rule budget_conclusion [of s' n d env r f], goal_cases)
    case (1 m \<tau>)
    then have "m < n \<and> \<tau> \<le> d \<and> (1 < m \<longrightarrow> \<tau> < d)" using jx(5) ev(1) by blast
    then show ?case by simp
  next
    case (2 k ms \<tau>)
    then have "\<tau> + max 0 (timerDelay env ms) < d" using jx(6) ev(2) by blast
    then show ?case using 2(2) by simp
  next
    case (3 k \<tau>)
    then have "\<tau> + max 0 (fst (f k)) < d" using jx(7) ev(3) by blast
    then show ?case using 3(2) by simp
  next
    case 4 then show ?case using jx(3) fr by simp
  qed
qed

lemma attempts_timer_first:
  assumes "trace s \<noteq> [] \<and> last (trace s) = TimerStart d \<and> timersStarted s = 1"
  shows "last (trace (snd (attempts env f pol tot k le s))) = TimerStart d
       \<and> timersStarted (snd (attempts env f pol tot k le s)) = 1"
proof -
  have "trace (snd (attempts env f pol tot k le s)) \<noteq> []
      \<and> last (trace (snd (attempts env f pol tot k le s))) = TimerStart d
      \<and> timersStarted (snd (attempts env f pol tot k le s)) = 1"
    by (rule attempts_invariant
          [of "\<lambda>x. trace x \<noteq> [] \<and> last (trace x) = TimerStart d \<and> timersStarted x = 1"])
       (use assms in \<open>auto simp: timersStarted_def advance_fields split: option.splits\<close>)
  then show ?thesis by simp
qed

lemma composeSignal_timers: "timersStarted (composeSignal env b tm (idle t)) \<le> 1"
  by (auto simp: composeSignal_def idle_def timersStarted_def logEvent_def Let_def
      split: option.splits)

lemma attempts_timers:
  "timersStarted (snd (attempts env f pol tot k le s)) = timersStarted s"
  by (rule attempts_invariant [of "\<lambda>x. timersStarted x = timersStarted s"])
     (auto simp: timersStarted_def advance_fields split: option.splits)

text \<open>
  C5, as the claim states it, fails: with a timeout of 100 ms the timer expires during the
  first attempt's transport call and the composed signal is aborted, but the transport
  ignores \<open>init.signal\<close>: the signal does not gate the call, which goes on for its full
  second, and the request returns the response 900 ms after the budget ran out.
\<close>

theorem ignored_signal_overruns_budget:
  "timeoutExpiry deafEnv 0 100 = 100
   \<and> trace (snd (requestWithRetry deafEnv None (Some 100) (Some threeRetries) 0))
       = [Cleanup, Fired defaultAbortReason AwaitTransport 1, TransportCall 1 0, AttemptStart 1 0,
          TimerStart 100]
   \<and> fst (requestWithRetry deafEnv None (Some 100) (Some threeRetries) 0) = Inr okResponse
   \<and> now (snd (requestWithRetry deafEnv None (Some 100) (Some threeRetries) 0)) = 1000"
  by (simp add: run_defs scenario_defs)

text \<open>
  C5, amended: the timer is started at most once per logical request. With a positive
  timeout \<open>T\<close> it is started exactly once, before anything else happens, and expires when
  the platform's timer for \<open>T\<close> does, at time \<open>D\<close>. The budget is not renewed between
  attempts: every attempt starts by \<open>D\<close>, every attempt after the first before \<open>D\<close>.
  The one signal gates every wait: when a wait is asked that would last until \<open>D\<close>, the
  request fails with the abort error of \<open>sleep\<close>, and no further attempt is started.
  When a transport call is made that would last until \<open>D\<close>, the signal is aborted and no
  further attempt is started; with a transport that honours the signal the request
  fails, and when there are no hooks either, it has ended by \<open>D\<close>.
\<close>

theorem timeout_spans_attempts:
  assumes run: "requestWithRetry env sig tmo pol t = (r, s')"
  shows "timersStarted s' \<le> 1
       \<and> (\<forall>T. (case tmo of Some ms \<Rightarrow> Some ms | None \<Rightarrow> defaultTimeout env) = Some T \<and> 0 < T
            \<longrightarrow> (fetchFn env \<noteq> None
                  \<longrightarrow> timersStarted s' = 1 \<and> last (trace s') = TimerStart (timeoutExpiry env t T))
              \<and> (\<forall>m \<tau>. AttemptStart m \<tau> \<in> set (trace s')
                   \<longrightarrow> \<tau> \<le> timeoutExpiry env t T \<and> (1 < m \<longrightarrow> \<tau> < timeoutExpiry env t T))
              \<and> (\<forall>n ms \<tau>. SleepCall n ms \<tau> \<in> set (trace s')
                          \<and> timeoutExpiry env t T \<le> \<tau> + max 0 (timerDelay env ms)
                   \<longrightarrow> r = Inl AbortedDOMException \<and> fired s' \<noteq> None
                       \<and> (\<forall>m \<tau>'. AttemptStart m \<tau>' \<in> set (trace s') \<longrightarrow> m \<le> n))
              \<and> (\<forall>f n \<tau>. fetchFn env = Some f \<and> TransportCall n \<tau> \<in> set (trace s')
                         \<and> timeoutExpiry env t T \<le> \<tau> + max 0 (fst (f n))
                   \<longrightarrow> fired s' \<noteq> None
                       \<and> (\<forall>m \<tau>'. AttemptStart m \<tau>' \<in> set (trace s') \<longrightarrow> m \<le> n)
                       \<and> (fetchObservesSignal env \<longrightarrow> (\<exists>e. r = Inl e)))
              \<and> (fetchObservesSignal env \<and> beforeRequest env = None \<and> afterResponse env = None
                   \<longrightarrow> now s' \<le> timeoutExpiry env t T))"
proof (cases "fetchFn env")
  case None
  then have "s' = idle t" using run by (simp add: requestWithRetry_def)
  then show ?thesis using None by (simp add: idle_def timersStarted_def timeoutExpiry_def)
next
  case (Some f)
  let ?tm = "case tmo of Some ms \<Rightarrow> Some ms | None \<Rightarrow> defaultTimeout env"
  let ?s = "composeSignal env sig ?tm (idle t)"
  let ?tot = "(case pol of Some p \<Rightarrow> retries p | None \<Rightarrow> 0) + 1"
  have at: "attempts env f pol ?tot 1 None ?s = (r, s')"
    using run Some by (simp add: requestWithRetry_def Let_def)
  have 0: "timersStarted s' \<le> 1"
    using attempts_timers [of env f pol ?tot 1 None ?s] at composeSignal_timers [of env sig ?tm t]
    by simp
  show ?thesis
  proof (rule conjI [OF 0], rule allI, rule impI)
    fix T
    assume h: "?tm = Some T \<and> 0 < T"
    then have tm: "?tm = Some T" and pos: "0 < T" by simp_all
    let ?d = "timeoutExpiry env t T"
    have init: "trace ?s = [TimerStart ?d]" "timer ?s = Some ?d" "now ?s = t" "fired ?s = None"
      using pos unfolding tm
      by (auto simp: composeSignal_def idle_def logEvent_def Let_def split: option.splits)
    have td: "t \<le> ?d" by (simp add: timeoutExpiry_def)
    have j: "betweenAttempts env f ?d 1 ?s"
      unfolding betweenAttempts_def using init td by simp
    have tf: "last (trace s') = TimerStart ?d \<and> timersStarted s' = 1"
      using attempts_timer_first [of ?s ?d env f pol ?tot 1 None] init at
      by (simp add: timersStarted_def)
    note b = attempts_budget [OF at j]
    note b1 = b [THEN conjunct1, rule_format]
      and b2 = b [THEN conjunct2, THEN conjunct1, rule_format]
      and b3 = b [THEN conjunct2, THEN conjunct2, THEN conjunct1, rule_format]
      and b4 = b [THEN conjunct2, THEN conjunct2, THEN conjunct2, rule_format]
    have g: "fetchFn env = Some g \<Longrightarrow> g = f" for g using Some by simp
    show "(fetchFn env \<noteq> None
                  \<longrightarrow> timersStarted s' = 1 \<and> last (trace s') = TimerStart (timeoutExpiry env t T))
              \<and> (\<forall>m \<tau>. AttemptStart m \<tau> \<in> set (trace s')
                   \<longrightarrow> \<tau> \<le> timeoutExpiry env t T \<and> (1 < m \<longrightarrow> \<tau> < timeoutExpiry env t T))
              \<and> (\<forall>n ms \<tau>. SleepCall n ms \<tau> \<in> set (trace s')
                          \<and> timeoutExpiry env t T \<le> \<tau> + max 0 (timerDelay env ms)
                   \<longrightarrow> r = Inl AbortedDOMException \<and> fired s' \<noteq> None
                       \<and> (\<forall>m \<tau>'. AttemptStart m \<tau>' \<in> set (trace s') \<longrightarrow> m \<le> n))
              \<and> (\<forall>f n \<tau>. fetchFn env = Some f \<and> TransportCall n \<tau> \<in> set (trace s')
                         \<and> timeoutExpiry env t T \<le> \<tau> + max 0 (fst (f n))
                   \<longrightarrow> fired s' \<noteq> None
                       \<and> (\<forall>m \<tau>'. AttemptStart m \<tau>' \<in> set (trace s') \<longrightarrow> m \<le> n)
                       \<and> (fetchObservesSignal env \<longrightarrow> (\<exists>e. r = Inl e)))
              \<and> (fetchObservesSignal env \<and> beforeRequest env = None \<and> afterResponse env = None
                   \<longrightarrow> now s' \<le> timeoutExpiry env t T)"
    proof (intro conjI impI allI, goal_cases)
      case 1 then show ?case using tf by simp
    next
      case 2 then show ?case using tf by simp
    next
      case (3 m \<tau>) then show ?case using b1 [of m \<tau>] by simp
    next
      case (4 m \<tau>) then show ?case using b1 [of m \<tau>] by simp
    next
      case (5 n ms \<tau>) then show ?case using b2 [of n ms \<tau>] by simp
    next
      case (6 n ms \<tau>) then show ?case using b2 [of n ms \<tau>] by simp
    next
      case (7 n ms \<tau> m \<tau>') then show ?case using b2 [of n ms \<tau>] by blast
    next
      case (8 g n \<tau>) then show ?case using b3 [of n \<tau>] g [of g] by simp
    next
      case (9 g n \<tau> m \<tau>') then show ?case using b3 [of n \<tau>] g [of g] by blast
    next
      case (10 g n \<tau>) then show ?case using b3 [of n \<tau>] g [of g] by simp
    next
      case 11 then show ?case using b4 by simp
    qed
  qed
qed

theorem timeout_spans_attempts_witness:
  "fetchFn hintingEnv \<noteq> None \<and> retries threeRetries = 3
   \<and> timeoutExpiry hintingEnv 0 100 = 100
   \<and> parseRetryAfter hintingEnv 1 retryIn250ms = Some (Finite 250)
   \<and> SleepCall 1 (Finite 250) 1
       \<in> set (trace (snd (requestWithRetry hintingEnv None (Some 100) (Some threeRetries) 0)))
   \<and> timeoutExpiry hintingEnv 0 100 \<le> 1 + max 0 (timerDelay hintingEnv (Finite 250))
   \<and> fst (requestWithRetry hintingEnv None (Some 100) (Some threeRetries) 0) = Inl AbortedDOMException
   \<and> trace (snd (requestWithRetry hintingEnv None (Some 100) (Some threeRetries) 0))
       = [Cleanup, Fired defaultAbortReason AwaitSleep 1, SleepCall 1 (Finite 250) 1,
          TransportCall 1 0, AttemptStart 1 0, TimerStart 100]
   \<and> now (snd (requestWithRetry hintingEnv None (Some 100) (Some threeRetries) 0)) = 100
   \<and> timersStarted (snd (requestWithRetry hintingEnv None (Some 100) (Some threeRetries) 0)) = 1
   \<and> last (trace (snd (requestWithRetry hintingEnv None (Some 100) (Some threeRetries) 0)))
       = TimerStart 100
   \<and> fetchObservesSignal slowEnv \<and> fetchFn slowEnv = Some (\<lambda>k. (1000, Inr okResponse))
   \<and> TransportCall 1 0
       \<in> set (trace (snd (requestWithRetry slowEnv None (Some 100) (Some threeRetries) 0)))
   \<and> timeoutExpiry slowEnv 0 100 \<le> 0 + max 0 (fst (1000 :: real, Inr okResponse :: js_error + response))
   \<and> (\<exists>e. fst (requestWithRetry slowEnv None (Some 100) (Some threeRetries) 0) = Inl e)
   \<and> fired (snd (requestWithRetry slowEnv None (Some 100) (Some threeRetries) 0)) \<noteq> None
   \<and> now (snd (requestWithRetry slowEnv None (Some 100) (Some threeRetries) 0)) = 100
   \<and> attemptsStarted (snd (requestWithRetry slowEnv None (Some 100) (Some threeRetries) 0)) = 1"
proof -
  let ?a = "requestWithRetry hintingEnv None (Some 100) (Some threeRetries) 0"
  let ?b = "requestWithRetry slowEnv None (Some 100) (Some threeRetries) 0"
  let ?g = "\<lambda>k::int. (1000 :: real, Inr okResponse :: js_error + response)"
  have ra: "?a = (fst ?a, snd ?a)" and rb: "?b = (fst ?b, snd ?b)" by simp_all
  have tm: "(case Some (100::real) of Some ms \<Rightarrow> Some ms | None \<Rightarrow> defaultTimeout hintingEnv) = Some 100
            \<and> (0::real) < 100"
    "(case Some (100::real) of Some ms \<Rightarrow> Some ms | None \<Rightarrow> defaultTimeout slowEnv) = Some 100
            \<and> (0::real) < 100"
    by simp_all
  have f: "fetchFn hintingEnv \<noteq> None" by (simp add: scenario_defs)
  have ex: "timeoutExpiry hintingEnv 0 100 = 100" "timeoutExpiry slowEnv 0 100 = 100"
    "timerDelay hintingEnv (Finite 250) = 250"
    by (simp_all add: timeoutExpiry_def nodeTimerDelay_def scenario_defs)
  have tr: "trace (snd ?a) = [Cleanup, Fired defaultAbortReason AwaitSleep 1, SleepCall 1 (Finite 250) 1,
          TransportCall 1 0, AttemptStart 1 0, TimerStart 100]"
    "now (snd ?a) = 100"
    "parseRetryAfter hintingEnv 1 retryIn250ms = Some (Finite 250)"
    by (simp_all add: run_defs scenario_defs)
  have sb: "fetchObservesSignal slowEnv" "fetchFn slowEnv = Some ?g"
    "beforeRequest slowEnv = None" "afterResponse slowEnv = None"
    by (simp_all add: scenario_defs)
  have trb: "TransportCall 1 0 \<in> set (trace (snd ?b))" "attemptsStarted (snd ?b) = 1"
    "now (snd ?b) = 100"
    by (simp_all add: run_defs scenario_defs)
  have sc: "SleepCall 1 (Finite 250) 1 \<in> set (trace (snd ?a))" by (simp add: tr)
  note wa = timeout_spans_attempts [OF ra, THEN conjunct2, rule_format, OF tm(1)]
  note wb = timeout_spans_attempts [OF rb, THEN conjunct2, rule_format, OF tm(2)]
  have 1: "timersStarted (snd ?a) = 1 \<and> last (trace (snd ?a)) = TimerStart 100"
    using wa [THEN conjunct1] f ex by simp
  have 2: "fst ?a = Inl AbortedDOMException"
    using wa [THEN conjunct2, THEN conjunct2, THEN conjunct1, rule_format, of 1 "Finite 250" 1] sc ex
    by simp
  have 3: "fired (snd ?b) \<noteq> None \<and> (\<exists>e. fst ?b = Inl e)"
    using wb [THEN conjunct2, THEN conjunct2, THEN conjunct2, THEN conjunct1, rule_format,
        of ?g 1 0] sb(1,2) trb(1) ex
    by simp
  show ?thesis using 1 2 3 f ex tr sb trb sc by (simp add: threeRetries_def)
qed
end
